theory Spec2Isabelle
  imports Main
begin

section \<open>Data model\<close>

text \<open>
  The four values of \<open>index_status\<close> / \<open>status\<close> (lib/database.ts, interfaces
  \<open>IndexedRepository\<close> and \<open>IndexingProgress\<close>).
\<close>

datatype index_status = Pending | Indexing | Completed | Failed

text \<open>
  A row of \<open>indexed_repositories\<close>, restricted to the columns the cache check reads and
  the access bookkeeping writes. Instants are milliseconds since the epoch (what
  \<open>Date.getTime()\<close> returns); \<open>cache_ttl_hours\<close> is a nullable INTEGER column.
\<close>

record indexed_repository =
  repo_id :: string
  repo_url :: string
  indexed_at :: int
  last_accessed_at :: int
  access_count :: int
  repo_index_status :: index_status
  cache_ttl_hours :: "int option"

section \<open>Cache check (check-cache route)\<close>

text \<open>
  \<open>getRepositoryByUrl\<close>: \<open>SELECT * ... WHERE repo_url = $1\<close>, first row or null.
\<close>

definition getRepositoryByUrl :: "indexed_repository list \<Rightarrow> string \<Rightarrow> indexed_repository option" where
  "getRepositoryByUrl tbl url = find (\<lambda>r. repo_url r = url) tbl"

text \<open>
  \<open>updateRepositoryAccess\<close>: \<open>UPDATE ... SET last_accessed_at = NOW(),
  access_count = access_count + 1 WHERE id = $1\<close>.
\<close>

definition updateRepositoryAccess :: "int \<Rightarrow> string \<Rightarrow> indexed_repository list \<Rightarrow> indexed_repository list" where
  "updateRepositoryAccess now rid tbl =
     map (\<lambda>r. if repo_id r = rid
               then r\<lparr>last_accessed_at := now, access_count := access_count r + 1\<rparr>
               else r) tbl"

text \<open>\<open>cachedRepo.cache_ttl_hours || 24\<close>: null and 0 are falsy.\<close>

definition ttlHours :: "indexed_repository \<Rightarrow> int" where
  "ttlHours r = (case cache_ttl_hours r of
                   None \<Rightarrow> 24
                 | Some t \<Rightarrow> if t = 0 then 24 else t)"

definition cacheExpiry :: "indexed_repository \<Rightarrow> int" where
  "cacheExpiry r = indexed_at r + ttlHours r * 60 * 60 * 1000"

definition isCacheValid :: "int \<Rightarrow> indexed_repository \<Rightarrow> bool" where
  "isCacheValid now r = (now < cacheExpiry r)"

datatype cache_response =
    CacheBadRequest
  | CacheMiss
  | CacheStatus (cached: bool) (indexing: bool) (completed: bool) (expiry: int)
  | CacheServerError

text \<open>
  The POST handler of the check-cache route. \<open>read_ok\<close> and \<open>write_ok\<close> say whether
  the two datastore calls return or throw; a throw is caught by the handler's outer
  \<open>catch\<close> and answered with status 500. The result is the response and the table
  after the request.
\<close>

definition check_cache_POST ::
  "bool \<Rightarrow> bool \<Rightarrow> int \<Rightarrow> string \<Rightarrow> indexed_repository list
     \<Rightarrow> cache_response \<times> indexed_repository list" where
  "check_cache_POST read_ok write_ok now repoUrl tbl =
     (if repoUrl = [] then (CacheBadRequest, tbl)
      else if \<not> read_ok then (CacheServerError, tbl)
      else case getRepositoryByUrl tbl repoUrl of
             None \<Rightarrow> (CacheMiss, tbl)
           | Some cachedRepo \<Rightarrow>
               let valid = isCacheValid now cachedRepo;
                   isIndexing = (repo_index_status cachedRepo = Indexing);
                   isCompleted = (repo_index_status cachedRepo = Completed)
               in if valid \<and> isCompleted
                  then (if write_ok
                        then (CacheStatus (valid \<and> isCompleted) isIndexing isCompleted
                                (cacheExpiry cachedRepo),
                              updateRepositoryAccess now (repo_id cachedRepo) tbl)
                        else (CacheServerError, tbl))
                  else (CacheStatus (valid \<and> isCompleted) isIndexing isCompleted
                          (cacheExpiry cachedRepo), tbl))"

section \<open>Strings\<close>

text \<open>
  JavaScript's \<open>String.prototype.split\<close> with a one-character separator (the result
  is never empty: the empty string gives one empty segment) and \<open>Array.prototype.join\<close>.
\<close>

fun split_on :: "char \<Rightarrow> string \<Rightarrow> string list" where
  "split_on sep [] = [[]]"
| "split_on sep (c # cs) =
     (if c = sep then [] # split_on sep cs
      else (case split_on sep cs of
              w # ws \<Rightarrow> (c # w) # ws
            | [] \<Rightarrow> [[c]]))"

fun join_with :: "char \<Rightarrow> string list \<Rightarrow> string" where
  "join_with sep [] = []"
| "join_with sep [w] = w"
| "join_with sep (w # ws) = w @ sep # join_with sep ws"

definition lower_letters :: string where
  "lower_letters = ''abcdefghijklmnopqrstuvwxyz''"

definition upper_letters :: string where
  "upper_letters = ''ABCDEFGHIJKLMNOPQRSTUVWXYZ''"

definition digit_chars :: string where
  "digit_chars = ''0123456789''"

text \<open>\<open>toLowerCase\<close> on the ASCII range (characters of the model are bytes).\<close>

definition lower_char :: "char \<Rightarrow> char" where
  "lower_char c = (case map_of (zip upper_letters lower_letters) c of
                     Some l \<Rightarrow> l
                   | None \<Rightarrow> c)"

definition toLowerCase :: "string \<Rightarrow> string" where
  "toLowerCase s = map lower_char s"

text \<open>The character class \<open>[a-zA-Z0-9]\<close>.\<close>

definition is_alnum :: "char \<Rightarrow> bool" where
  "is_alnum c = (c \<in> set (lower_letters @ upper_letters @ digit_chars))"

text \<open>\<open>filePath.replace(/[^a-zA-Z0-9]/g, '_')\<close>.\<close>

definition sanitize_path :: "string \<Rightarrow> string" where
  "sanitize_path p = map (\<lambda>c. if is_alnum c then c else CHR ''_'') p"

section \<open>Content fetcher (lib/github)\<close>

text \<open>
  The outcome of one request to the repository host: a value, or a thrown error with
  its \<open>status\<close> property (absent on errors that carry none, such as network faults).
\<close>

datatype 'a response = Ok 'a | Err "nat option"

text \<open>
  \<open>withRetry\<close>. The request \<open>fn\<close> is given as the outcome of each successive call,
  indexed by the number of failures before it (the value of \<open>attempt\<close> when the call is
  made). The result carries the number of calls made and the delays waited, in
  milliseconds, in order.
\<close>

function withRetry_loop ::
  "(nat \<Rightarrow> 'a response) \<Rightarrow> nat \<Rightarrow> nat \<Rightarrow> nat \<Rightarrow> nat list
     \<Rightarrow> 'a response \<times> nat \<times> nat list" where
  "withRetry_loop fn retries baseMs attempt delays =
     (case fn attempt of
        Ok v \<Rightarrow> (Ok v, attempt + 1, delays)
      | Err st \<Rightarrow>
          if attempt + 1 > retries \<or> st = Some 404
          then (Err st, attempt + 1, delays)
          else withRetry_loop fn retries baseMs (attempt + 1)
                 (delays @ [baseMs * 2 ^ (attempt + 1 - 1)]))"
  by pat_completeness auto
termination
  by (relation "measure (\<lambda>(fn, retries, baseMs, attempt, delays). retries + 1 - attempt)") auto

text \<open>The defaults \<open>opts.retries ?? 3\<close> and \<open>opts.baseMs ?? 400\<close>.\<close>

definition withRetry :: "(nat \<Rightarrow> 'a response) \<Rightarrow> 'a response \<times> nat \<times> nat list" where
  "withRetry fn = withRetry_loop fn 3 400 0 []"

text \<open>
  What \<open>repos.getContent\<close> answers: an array for a directory, or one entry whose
  \<open>size\<close>, \<open>encoding\<close> and \<open>content\<close> may be absent.
\<close>

record content_entry =
  entry_type :: string
  entry_size :: "nat option"
  entry_encoding :: "string option"
  entry_content :: "string option"

datatype content_data = DirListing | Entry content_entry

text \<open>
  The repository host as seen by \<open>fetchRawFileContent\<close>, for one fixed owner and
  repository: the outcome of the \<open>n\<close>-th consecutive \<open>repos.get\<close> request (its data
  reduced to \<open>default_branch\<close>), the outcome of the \<open>n\<close>-th consecutive
  \<open>repos.getContent\<close> request for a path and a ref, and the base64 decoder
  (\<open>Buffer.from(s, 'base64').toString('utf-8')\<close>), which is library code.
\<close>

record host =
  get_repo :: "nat \<Rightarrow> string response"
  get_content :: "string \<Rightarrow> string \<Rightarrow> nat \<Rightarrow> content_data response"
  decode_base64 :: "string \<Rightarrow> string"

text \<open>
  The result of \<open>fetchRawFileContent\<close>: \<open>Inl st\<close> is a thrown error with status
  \<open>st\<close>, \<open>Inr None\<close> is \<open>null\<close>, \<open>Inr (Some (content, size))\<close> the fetched text.
  Decoding an entry marked base64 whose \<open>content\<close> is absent throws (\<open>Buffer.from\<close>
  rejects \<open>undefined\<close>); the error has no status and is rethrown.
\<close>

type_synonym fetch_result = "nat option + (string \<times> nat) option"

definition fetch_catch :: "nat option \<Rightarrow> fetch_result" where
  "fetch_catch st = (if st = Some 403 \<or> st = Some 404 then Inr None else Inl st)"

definition content_of_data :: "(string \<Rightarrow> string) \<Rightarrow> content_data \<Rightarrow> fetch_result" where
  "content_of_data b64 d =
     (case d of
        DirListing \<Rightarrow> Inr None
      | Entry e \<Rightarrow>
          if entry_type e \<noteq> ''file'' then Inr None
          else let sz = (case entry_size e of Some n \<Rightarrow> n | None \<Rightarrow> 0)
               in if sz > 256 * 1024 then Inr None
                  else if entry_encoding e = Some ''base64''
                  then (case entry_content e of
                          Some c \<Rightarrow> Inr (Some (b64 c, sz))
                        | None \<Rightarrow> Inl None)
                  else Inr (Some ((case entry_content e of Some c \<Rightarrow> c | None \<Rightarrow> []), sz)))"

text \<open>\<open>ref || repoMeta.data.default_branch || 'main'\<close>: an empty string is falsy.\<close>

definition resolve_branch :: "string option \<Rightarrow> string \<Rightarrow> string" where
  "resolve_branch ref default_branch =
     (case ref of
        Some r \<Rightarrow> if r \<noteq> [] then r
                  else if default_branch \<noteq> [] then default_branch else ''main''
      | None \<Rightarrow> if default_branch \<noteq> [] then default_branch else ''main'')"

text \<open>
  \<open>fetchRawFileContent\<close>, with the number of \<open>repos.getContent\<close> requests made (0 when
  the metadata request already failed).
\<close>

definition fetchRawFileContent :: "host \<Rightarrow> string \<Rightarrow> string option \<Rightarrow> fetch_result \<times> nat" where
  "fetchRawFileContent h path ref =
     (case withRetry (get_repo h) of
        (Err st, _, _) \<Rightarrow> (fetch_catch st, 0)
      | (Ok default_branch, _, _) \<Rightarrow>
          let branch = resolve_branch ref default_branch
          in (case withRetry (get_content h path branch) of
                (Err st, calls, _) \<Rightarrow> (fetch_catch st, calls)
              | (Ok d, calls, _) \<Rightarrow> (content_of_data (decode_base64 h) d, calls)))"

section \<open>Search index of files (lib/elasticsearch)\<close>

text \<open>
  The document \<open>indexFile\<close> receives: the object literal built by the indexing callback
  and by the query route. \<open>file_language\<close> is absent when the extension is unknown.
\<close>

record file_doc =
  doc_id :: string
  doc_repo_id :: string
  file_path :: string
  file_content :: string
  file_size :: nat
  file_language :: "string option"
  file_type :: string

text \<open>
  \<open>indexFile\<close> calls \<open>client.index\<close> with an index name and a body and no document
  id, so the engine stores every written document under a key of its own: the index is
  the list of documents written so far.
\<close>

definition indexFile :: "file_doc \<Rightarrow> file_doc list \<Rightarrow> file_doc list" where
  "indexFile fileData idx = idx @ [fileData]"

text \<open>
  \<open>getFileContent\<close>: the documents whose \<open>repo_id\<close> and \<open>file_path.keyword\<close> are the
  given ones, and the first of them (\<open>size: 1\<close>).
\<close>

definition file_hits :: "string \<Rightarrow> string \<Rightarrow> file_doc list \<Rightarrow> file_doc list" where
  "file_hits repoId filePath idx =
     filter (\<lambda>d. doc_repo_id d = repoId \<and> file_path d = filePath) idx"

definition getFileContent :: "string \<Rightarrow> string \<Rightarrow> file_doc list \<Rightarrow> file_doc option" where
  "getFileContent repoId filePath idx =
     (case file_hits repoId filePath idx of [] \<Rightarrow> None | d # _ \<Rightarrow> Some d)"

text \<open>The identity of an indexed file: its repository and its path.\<close>

definition file_identity :: "file_doc \<Rightarrow> string \<times> string" where
  "file_identity d = (doc_repo_id d, file_path d)"

definition languageMap :: "(string \<times> string) list" where
  "languageMap =
     [(''js'', ''javascript''), (''jsx'', ''javascript''), (''ts'', ''typescript''),
      (''tsx'', ''typescript''), (''py'', ''python''), (''java'', ''java''),
      (''cpp'', ''cpp''), (''c'', ''c''), (''cs'', ''csharp''), (''php'', ''php''),
      (''rb'', ''ruby''), (''go'', ''go''), (''rs'', ''rust''), (''swift'', ''swift''),
      (''kt'', ''kotlin''), (''scala'', ''scala''), (''html'', ''html''), (''css'', ''css''),
      (''scss'', ''scss''), (''sass'', ''sass''), (''json'', ''json''), (''xml'', ''xml''),
      (''yaml'', ''yaml''), (''yml'', ''yaml''), (''md'', ''markdown''), (''txt'', ''text'')]"

definition getLanguageFromPath :: "string \<Rightarrow> string option" where
  "getLanguageFromPath filePath =
     map_of languageMap (toLowerCase (last (split_on (CHR ''.'') filePath)))"

text \<open>The \<open>fileData\<close> literal of the indexing callback.\<close>

definition mk_fileData ::
  "string \<Rightarrow> string \<Rightarrow> string \<Rightarrow> string \<Rightarrow> string option \<Rightarrow> file_doc" where
  "mk_fileData repoId filePath content fileType language =
     \<lparr>doc_id = repoId @ ''_'' @ sanitize_path filePath,
      doc_repo_id = repoId,
      file_path = filePath,
      file_content = content,
      file_size = length content,
      file_language = language,
      file_type = fileType\<rparr>"

section \<open>Indexing orchestrator (background-index and index-repo routes)\<close>

datatype node_type = File | Folder

text \<open>A node of \<open>RepoData['files']\<close>; \<open>children\<close> is optional.\<close>

datatype file_node =
  FileNode (node_path: string) (node_kind: node_type) (node_children: "file_node list option")

text \<open>The \<open>current_step\<close> texts, with the interpolated counts as arguments.\<close>

datatype step_label =
    FetchingFromGitHub
  | AnalyzingStructure
  | FoundFiles nat
  | BuildingSearchIndex
  | IndexingFiles nat nat
  | FetchedFileContents
  | GeneratingInsights
  | RepositoryReady
  | IndexingFailed

text \<open>A row of \<open>indexing_progress\<close> as \<open>updateRepositoryStatus\<close> writes it.\<close>

record progress_row =
  status :: index_status
  progress :: int
  current_step :: step_label
  error_message :: "string option"
  total_files :: nat
  indexed_files :: nat

text \<open>
  The state an indexing run works on: the progress table (one row per repository id,
  by its unique index), the sequence of rows written so far (what a polling client can
  observe, in order), the file index, the number of \<open>updateRepositoryStatus\<close> calls
  made, and the two counters local to the run.
\<close>

record run_state =
  progress_table :: "string \<rightharpoonup> progress_row"
  written :: "progress_row list"
  es_files :: "file_doc list"
  db_calls :: nat
  indexedFilesCount :: nat
  failedFilesCount :: nat

text \<open>
  The collaborators of a run. \<open>db_update\<close> gives, for the \<open>n\<close>-th call of
  \<open>updateRepositoryStatus\<close>, \<open>None\<close> when it succeeds and the error message when it
  throws (its own retries exhausted, or the 15 s race lost); \<open>repo_data\<close> is the result of
  \<open>fetchCompleteRepositoryData\<close> (the repository name and file tree) or its error
  message; \<open>es_repo\<close> and \<open>es_file\<close> say whether \<open>indexRepository\<close> and \<open>indexFile\<close>
  (for a path) throw; \<open>floor_ratio50 i t\<close> stands for the double-precision expression
  \<open>Math.floor((i / t) * 50)\<close>.
\<close>

record run_env =
  db_update :: "nat \<Rightarrow> string option"
  repo_data :: "string + (string \<times> file_node list)"
  es_repo :: "string option"
  es_file :: "string \<Rightarrow> string option"
  github :: host
  floor_ratio50 :: "nat \<Rightarrow> nat \<Rightarrow> int"

text \<open>
  \<open>updateRepositoryStatus\<close>: the upsert of the progress row under the repository id,
  with \<open>totalFiles || 0\<close> and \<open>indexedFiles || 0\<close>. The table's CHECK constraint rejects
  a progress outside 0..100. \<open>Inl\<close> is a throw, with the state at that point.
\<close>

definition updateRepositoryStatus ::
  "run_env \<Rightarrow> string \<Rightarrow> index_status \<Rightarrow> int \<Rightarrow> step_label \<Rightarrow> string option
     \<Rightarrow> nat option \<Rightarrow> nat option \<Rightarrow> run_state \<Rightarrow> (string \<times> run_state) + run_state" where
  "updateRepositoryStatus E repoId st prog step errorMessage totalFiles indexedFiles s =
     (let s' = s\<lparr>db_calls := db_calls s + 1\<rparr>;
          row = \<lparr>status = st, progress = prog, current_step = step,
                 error_message = errorMessage,
                 total_files = (case totalFiles of Some n \<Rightarrow> n | None \<Rightarrow> 0),
                 indexed_files = (case indexedFiles of Some n \<Rightarrow> n | None \<Rightarrow> 0)\<rparr>
      in case db_update E (db_calls s) of
           Some msg \<Rightarrow> Inl (msg, s')
         | None \<Rightarrow>
             if prog < 0 \<or> 100 < prog then Inl (''check constraint'', s')
             else Inr (s'\<lparr>progress_table := (progress_table s')(repoId \<mapsto> row),
                          written := written s' @ [row]\<rparr>))"

fun countFilesRecursively :: "file_node list \<Rightarrow> nat"
  and count_file :: "file_node \<Rightarrow> nat" where
  "countFilesRecursively [] = 0"
| "countFilesRecursively (file # files) = count_file file + countFilesRecursively files"
| "count_file (FileNode p t ch) =
     (if t = File then 1
      else (case ch of Some cs \<Rightarrow> countFilesRecursively cs | None \<Rightarrow> 0))"

fun flattenFiles :: "file_node list \<Rightarrow> string list"
  and flatten_file :: "file_node \<Rightarrow> string list" where
  "flattenFiles [] = []"
| "flattenFiles (f # fs) = flatten_file f @ flattenFiles fs"
| "flatten_file (FileNode p t ch) =
     (if t = File then [p] else [])
     @ (case ch of Some cs \<Rightarrow> flattenFiles cs | None \<Rightarrow> [])"

text \<open>
  The content handed to the callback by \<open>indexFilesRecursively\<close>: the fetched text, or
  one of the two placeholders when the fetch gives nothing (null or empty content) or
  throws.
\<close>

definition content_or_placeholder :: "host \<Rightarrow> string \<Rightarrow> string" where
  "content_or_placeholder h path =
     (case fst (fetchRawFileContent h path None) of
        Inr (Some (content, sz)) \<Rightarrow>
          if content \<noteq> [] then content
          else ''// File: '' @ path @ [CHR 0x0A]
               @ ''// Content unavailable (file may be too large or binary)''
      | Inr None \<Rightarrow>
          ''// File: '' @ path @ [CHR 0x0A]
          @ ''// Content unavailable (file may be too large or binary)''
      | Inl st \<Rightarrow> ''// File: '' @ path @ [CHR 0x0A] @ ''// Content unavailable'')"

text \<open>
  The callback passed to \<open>indexFilesRecursively\<close>. A throw of \<open>indexFile\<close> or of
  the progress update is caught inside the callback and counted in \<open>failedFilesCount\<close>.
\<close>

definition indexCallback ::
  "run_env \<Rightarrow> string \<Rightarrow> nat \<Rightarrow> string \<Rightarrow> string \<Rightarrow> string \<Rightarrow> string option
     \<Rightarrow> run_state \<Rightarrow> run_state" where
  "indexCallback E repoId totalFiles filePath content fileType language s =
     (case es_file E filePath of
        Some msg \<Rightarrow> s\<lparr>failedFilesCount := failedFilesCount s + 1\<rparr>
      | None \<Rightarrow>
          let s1 = s\<lparr>es_files := indexFile (mk_fileData repoId filePath content fileType language)
                                   (es_files s),
                     indexedFilesCount := indexedFilesCount s + 1\<rparr>;
              n = indexedFilesCount s1
          in if n mod 2 = 0 \<or> n = totalFiles
             then (case updateRepositoryStatus E repoId Indexing
                          (min (40 + floor_ratio50 E n totalFiles) 90)
                          (IndexingFiles n totalFiles) None (Some totalFiles) (Some n) s1 of
                     Inr s2 \<Rightarrow> s2
                   | Inl (msg, s2) \<Rightarrow> s2\<lparr>failedFilesCount := failedFilesCount s2 + 1\<rparr>)
             else s1)"

fun indexFilesRecursively :: "run_env \<Rightarrow> string \<Rightarrow> nat \<Rightarrow> file_node list \<Rightarrow> run_state \<Rightarrow> run_state"
  and index_one_file :: "run_env \<Rightarrow> string \<Rightarrow> nat \<Rightarrow> file_node \<Rightarrow> run_state \<Rightarrow> run_state" where
  "indexFilesRecursively E repoId totalFiles [] s = s"
| "indexFilesRecursively E repoId totalFiles (file # files) s =
     indexFilesRecursively E repoId totalFiles files (index_one_file E repoId totalFiles file s)"
| "index_one_file E repoId totalFiles (FileNode p t ch) s =
     (if t = File
      then indexCallback E repoId totalFiles p (content_or_placeholder (github E) p) ''file''
             (getLanguageFromPath p) s
      else (case ch of
              Some cs \<Rightarrow> indexFilesRecursively E repoId totalFiles cs s
            | None \<Rightarrow> s))"

text \<open>
  The steps of \<open>indexRepositoryAsync\<close> after the file tree is known (steps 3 to 12
  of the background-index route): \<open>Inl\<close> is a throw with its message, caught by the
  outer \<open>catch\<close>. The insights step between the 92% update and the verification
  writes no progress row and swallows every exception, and so does the search smoke
  test; neither appears here.
\<close>

definition index_steps ::
  "run_env \<Rightarrow> string \<Rightarrow> file_node list \<Rightarrow> run_state \<Rightarrow> (string \<times> run_state) + run_state" where
  "index_steps E repoId files s1 =
     (case updateRepositoryStatus E repoId Indexing 20 AnalyzingStructure None None None s1 of
        Inl e \<Rightarrow> Inl e
      | Inr s2 \<Rightarrow>
     let totalFiles = countFilesRecursively files in
     (case updateRepositoryStatus E repoId Indexing 30 (FoundFiles totalFiles) None
             (Some totalFiles) (Some 0) s2 of
        Inl e \<Rightarrow> Inl e
      | Inr s3 \<Rightarrow>
     (case es_repo E of
        Some msg \<Rightarrow> Inl (''Elasticsearch error: '' @ msg, s3)
      | None \<Rightarrow>
     (case updateRepositoryStatus E repoId Indexing 40 BuildingSearchIndex None None None s3 of
        Inl e \<Rightarrow> Inl e
      | Inr s4 \<Rightarrow>
     let s5 = indexFilesRecursively E repoId totalFiles files
                (s4\<lparr>indexedFilesCount := 0, failedFilesCount := 0\<rparr>) in
     (case updateRepositoryStatus E repoId Indexing 85 FetchedFileContents None None None s5 of
        Inl e \<Rightarrow> Inl e
      | Inr s6 \<Rightarrow>
     (case updateRepositoryStatus E repoId Indexing 92 GeneratingInsights None None None s6 of
        Inl e \<Rightarrow> Inl e
      | Inr s7 \<Rightarrow>
     if indexedFilesCount s7 = 0 then Inl (''No files were successfully indexed'', s7)
     else updateRepositoryStatus E repoId Completed 100 RepositoryReady None
            (Some totalFiles) (Some (indexedFilesCount s7)) s7))))))"

text \<open>The body of the \<open>try\<close> block: steps 1 and 2, then the rest.\<close>

definition index_try ::
  "run_env \<Rightarrow> string \<Rightarrow> run_state \<Rightarrow> (string \<times> run_state) + run_state" where
  "index_try E repoId s0 =
     (case updateRepositoryStatus E repoId Indexing 5 FetchingFromGitHub None None None s0 of
        Inl (msg, s) \<Rightarrow> Inl (''Database error: '' @ msg, s)
      | Inr s1 \<Rightarrow>
          (case repo_data E of
             Inl msg \<Rightarrow> Inl (''GitHub API error: '' @ msg, s1)
           | Inr (name, files) \<Rightarrow> index_steps E repoId files s1))"

text \<open>
  \<open>indexRepositoryAsync\<close>: on a throw the row is set to failed with progress 0 and the
  error's message; a failure of that last write is swallowed. The function of the same
  name in the index-repo route makes the same calls of \<open>updateRepositoryStatus\<close> in the
  same order with the same arguments; it differs in the wording of the error messages
  and in not catching a failure of the last write.
\<close>

definition indexRepositoryAsync :: "run_env \<Rightarrow> string \<Rightarrow> run_state \<Rightarrow> run_state" where
  "indexRepositoryAsync E repoId s0 =
     (case index_try E repoId s0 of
        Inr s \<Rightarrow> s
      | Inl (msg, s) \<Rightarrow>
          let errorMessage =
                (if msg \<noteq> [] then msg else ''Unknown error occurred during indexing'')
          in (case updateRepositoryStatus E repoId Failed 0 IndexingFailed
                     (Some errorMessage) None None s of
                Inr s' \<Rightarrow> s'
              | Inl (m, s') \<Rightarrow> s'))"

datatype index_response =
    BadRequest
  | AlreadyIndexed
  | AlreadyInProgress int
  | IndexingCompleted
  | ServerError

text \<open>
  The POST handler of the background-index route. \<open>getIndexingProgress\<close> reads the
  row of the repository from the progress table; \<open>read_ok\<close> says whether that read
  returns or throws.
\<close>

definition getIndexingProgress :: "run_state \<Rightarrow> string \<Rightarrow> progress_row option" where
  "getIndexingProgress s repoId = progress_table s repoId"

definition background_index_POST ::
  "run_env \<Rightarrow> bool \<Rightarrow> string \<Rightarrow> string \<Rightarrow> run_state \<Rightarrow> index_response \<times> run_state" where
  "background_index_POST E read_ok repoId repoUrl s =
     (if repoId = [] \<or> repoUrl = [] then (BadRequest, s)
      else if \<not> read_ok then (ServerError, s)
      else (case getIndexingProgress s repoId of
              Some currentProgress \<Rightarrow>
                if status currentProgress = Completed then (AlreadyIndexed, s)
                else if status currentProgress = Indexing \<and> progress currentProgress > 5
                then (AlreadyInProgress (progress currentProgress), s)
                else (IndexingCompleted, indexRepositoryAsync E repoId s)
            | None \<Rightarrow> (IndexingCompleted, indexRepositoryAsync E repoId s)))"

text \<open>The state before any indexing request.\<close>

definition empty_state :: run_state where
  "empty_state = \<lparr>progress_table = Map.empty, written = [], es_files = [], db_calls = 0,
                   indexedFilesCount = 0, failedFilesCount = 0\<rparr>"

text \<open>
  A host on which every metadata request succeeds and the content request for a path
  answers 404 when the path is in \<open>missing\<close>, and a small text file otherwise.
\<close>

definition host_missing :: "string list \<Rightarrow> host" where
  "host_missing missing =
     \<lparr>get_repo = (\<lambda>n. Ok ''main''),
      get_content = (\<lambda>path ref n.
         if path \<in> set missing then Err (Some 404)
         else Ok (Entry \<lparr>entry_type = ''file'', entry_size = Some 2,
                          entry_encoding = None, entry_content = Some ''ok''\<rparr>)),
      decode_base64 = (\<lambda>s. s)\<rparr>"

text \<open>
  An environment in which every datastore and search-index write succeeds, over a
  given tree and host; the ratio is computed exactly (where \<open>i = t\<close> the
  double-precision computation gives exactly 50 as well).
\<close>

definition env_ok :: "file_node list \<Rightarrow> host \<Rightarrow> run_env" where
  "env_ok files h =
     \<lparr>db_update = (\<lambda>n. None),
      repo_data = Inr (''repo'', files),
      es_repo = None,
      es_file = (\<lambda>p. None),
      github = h,
      floor_ratio50 = (\<lambda>i t. (50 * int i) div int t)\<rparr>"

definition one_file_tree :: "file_node list" where
  "one_file_tree = [FileNode ''README.md'' File (Some [])]"

definition ten_file_tree :: "file_node list" where
  "ten_file_tree =
     [FileNode ''src'' Folder (Some
        [FileNode ''src/a.ts'' File (Some []), FileNode ''src/b.ts'' File (Some []),
         FileNode ''src/c.ts'' File (Some []), FileNode ''src/d.ts'' File (Some []),
         FileNode ''src/e.ts'' File (Some []), FileNode ''src/f.ts'' File (Some []),
         FileNode ''src/g.ts'' File (Some [])]),
      FileNode ''x.md'' File (Some []), FileNode ''y.md'' File (Some []),
      FileNode ''z.md'' File (Some [])]"

text \<open>
  The paths on which \<open>indexFilesRecursively\<close> invokes the callback, in order: the
  file nodes, and below a node that is not a file, those of its children.
\<close>

fun indexed_paths :: "file_node list \<Rightarrow> string list"
  and indexed_path :: "file_node \<Rightarrow> string list" where
  "indexed_paths [] = []"
| "indexed_paths (f # fs) = indexed_path f @ indexed_paths fs"
| "indexed_path (FileNode p t ch) =
     (if t = File then [p]
      else (case ch of Some cs \<Rightarrow> indexed_paths cs | None \<Rightarrow> []))"

text \<open>The effect of a successful \<open>updateRepositoryStatus\<close> on the state.\<close>

definition push_row :: "string \<Rightarrow> progress_row \<Rightarrow> run_state \<Rightarrow> run_state" where
  "push_row repoId row s =
     s\<lparr>db_calls := db_calls s + 1,
       progress_table := (progress_table s)(repoId \<mapsto> row),
       written := written s @ [row]\<rparr>"

text \<open>
  A content fetch that gives the indexing loop nothing to index: it throws, returns null,
  or returns an empty text. The loop then indexes a placeholder.
\<close>

definition fetch_gives_nothing :: "host \<Rightarrow> string \<Rightarrow> bool" where
  "fetch_gives_nothing h p =
     (case fst (fetchRawFileContent h p None) of
        Inr (Some (content, sz)) \<Rightarrow> content = []
      | Inr None \<Rightarrow> True
      | Inl st \<Rightarrow> True)"

definition failed_fetches :: "host \<Rightarrow> file_node list \<Rightarrow> string list" where
  "failed_fetches h files = filter (fetch_gives_nothing h) (indexed_paths files)"

text \<open>The files of a tree whose write to the search index succeeds.\<close>

definition index_successes :: "run_env \<Rightarrow> file_node list \<Rightarrow> string list" where
  "index_successes E files = filter (\<lambda>p. es_file E p = None) (indexed_paths files)"

text \<open>
  The document the file loop hands to \<open>indexFile\<close> for a path: the fetched content or
  a placeholder, the type \<open>file\<close>, and the language of the extension.
\<close>

definition file_document :: "run_env \<Rightarrow> string \<Rightarrow> string \<Rightarrow> file_doc" where
  "file_document E repoId p =
     mk_fileData repoId p (content_or_placeholder (github E) p) ''file'' (getLanguageFromPath p)"

text \<open>The last row of a run over a tree of \<open>tot\<close> files of which \<open>n\<close> were indexed.\<close>

definition final_row :: "nat \<Rightarrow> nat \<Rightarrow> progress_row" where
  "final_row tot n =
     (if n = 0
      then \<lparr>status = Failed, progress = 0, current_step = IndexingFailed,
             error_message = Some ''No files were successfully indexed'',
             total_files = 0, indexed_files = 0\<rparr>
      else \<lparr>status = Completed, progress = 100, current_step = RepositoryReady,
             error_message = None, total_files = tot, indexed_files = n\<rparr>)"

text \<open>As \<open>env_ok\<close>, but the search-index write throws for the paths in \<open>bad\<close>.\<close>

definition env_index_failing :: "file_node list \<Rightarrow> host \<Rightarrow> string list \<Rightarrow> run_env" where
  "env_index_failing files h bad =
     (env_ok files h)\<lparr>es_file :=
        (\<lambda>p. if p \<in> set bad then Some ''index write failed'' else None)\<rparr>"

definition ten_paths :: "string list" where
  "ten_paths = [''src/a.ts'', ''src/b.ts'', ''src/c.ts'', ''src/d.ts'', ''src/e.ts'',
                ''src/f.ts'', ''src/g.ts'', ''x.md'', ''y.md'', ''z.md'']"

text \<open>A repository record indexed at instant 1000 with the default TTL of 24 hours.\<close>

definition example_repo :: indexed_repository where
  "example_repo = \<lparr>repo_id = ''r1'', repo_url = ''https://github.com/o/r'',
                    indexed_at = 1000, last_accessed_at = 1000, access_count = 1,
                    repo_index_status = Completed, cache_ttl_hours = Some 24\<rparr>"

text \<open>A host whose content requests always fail with status 500.\<close>

definition host_always_500 :: host where
  "host_always_500 =
     \<lparr>get_repo = (\<lambda>n. Ok ''main''),
      get_content = (\<lambda>path ref n. Err (Some 500)),
      decode_base64 = (\<lambda>s. s)\<rparr>"

text \<open>A host on which every path is a base64-encoded file of 300 KiB.\<close>

definition host_300KiB :: host where
  "host_300KiB =
     \<lparr>get_repo = (\<lambda>n. Ok ''main''),
      get_content = (\<lambda>path ref n.
         Ok (Entry \<lparr>entry_type = ''file'', entry_size = Some (300 * 1024),
                     entry_encoding = Some ''base64'', entry_content = Some ''AAAA''\<rparr>)),
      decode_base64 = (\<lambda>s. s)\<rparr>"

text \<open>A request that fails twice without a status and then succeeds.\<close>

definition flaky_request :: "nat \<Rightarrow> string response" where
  "flaky_request n = (if n < 2 then Err None else Ok ''main'')"

text \<open>A state in which repository \<open>r1\<close> is being indexed, at 50%.\<close>

definition half_way_row :: progress_row where
  "half_way_row = \<lparr>status = Indexing, progress = 50, current_step = IndexingFiles 2 10,
                    error_message = None, total_files = 10, indexed_files = 2\<rparr>"

definition half_way_state :: run_state where
  "half_way_state = empty_state\<lparr>progress_table := [''r1'' \<mapsto> half_way_row],
                                 written := [half_way_row], db_calls := 5\<rparr>"

text \<open>The number of \<open>updateRepositoryStatus\<close> calls the file loop makes from a state.\<close>

definition loop_db_calls :: "run_env \<Rightarrow> string \<Rightarrow> nat \<Rightarrow> file_node list \<Rightarrow> run_state \<Rightarrow> nat" where
  "loop_db_calls E repoId totalFiles files s =
     db_calls (indexFilesRecursively E repoId totalFiles files s) - db_calls s"

section \<open>Concurrency limiter (createLimit, lib/github)\<close>

text \<open>
  The closure state of \<open>createLimit\<close>: \<open>activeCount\<close> and \<open>queue\<close>. Tasks are named by
  values of type \<open>'a\<close>. Three logs are kept beside the state to speak about the
  behaviour: the tasks handed to \<open>limit\<close> so far, the tasks whose \<open>fn\<close> was called so far
  (both in order), and the tasks started and not yet settled.
\<close>

record 'a limiter =
  activeCount :: int
  queue :: "'a list"
  submitted :: "'a list"
  started :: "'a list"
  running :: "'a list"

definition new_limiter :: "'a limiter" where
  "new_limiter = \<lparr>activeCount = 0, queue = [], submitted = [], started = [], running = []\<rparr>"

text \<open>\<open>next\<close>: take the head of the queue and run it, unless the queue is empty or the
  limit is reached.\<close>

definition next_task :: "int \<Rightarrow> 'a limiter \<Rightarrow> 'a limiter" where
  "next_task concurrency s =
     (case queue s of
        [] \<Rightarrow> s
      | run # rest \<Rightarrow>
          if activeCount s \<ge> concurrency then s
          else s\<lparr>queue := rest, activeCount := activeCount s + 1,
                 started := started s @ [run], running := running s @ [run]\<rparr>)"

text \<open>\<open>limit(fn)\<close>: push the task, then \<open>next()\<close>.\<close>

definition limit :: "int \<Rightarrow> 'a \<Rightarrow> 'a limiter \<Rightarrow> 'a limiter" where
  "limit concurrency t s =
     next_task concurrency (s\<lparr>queue := queue s @ [t], submitted := submitted s @ [t]\<rparr>)"

text \<open>
  The \<open>finally\<close> callback of a started task, which runs whether the task's promise was
  fulfilled or rejected: \<open>activeCount--\<close>, then \<open>next()\<close>.
\<close>

datatype outcome = Fulfilled | Rejected

definition settle :: "int \<Rightarrow> 'a \<Rightarrow> outcome \<Rightarrow> 'a limiter \<Rightarrow> 'a limiter" where
  "settle concurrency t oc s =
     next_task concurrency (s\<lparr>activeCount := activeCount s - 1, running := remove1 t (running s)\<rparr>)"

text \<open>
  What can happen to a limiter: a task is submitted, or a running task settles. A task
  that is not running cannot settle.
\<close>

datatype 'a event = Submit 'a | Settle 'a outcome

fun limiter_step :: "int \<Rightarrow> 'a event \<Rightarrow> 'a limiter \<Rightarrow> 'a limiter option" where
  "limiter_step c (Submit t) s = Some (limit c t s)"
| "limiter_step c (Settle t oc) s = (if t \<in> set (running s) then Some (settle c t oc s) else None)"

fun run_events :: "int \<Rightarrow> 'a event list \<Rightarrow> 'a limiter \<Rightarrow> 'a limiter option" where
  "run_events c [] s = Some s"
| "run_events c (e # es) s =
     (case limiter_step c e s of None \<Rightarrow> None | Some s' \<Rightarrow> run_events c es s')"

fun is_settle :: "'a event \<Rightarrow> bool" where
  "is_settle (Settle t oc) = True"
| "is_settle (Submit t) = False"

definition settles :: "'a event list \<Rightarrow> nat" where
  "settles es = length (filter is_settle es)"

text \<open>\<open>githubConcurrencyLimit = createLimit(5)\<close>.\<close>

definition githubConcurrencyLimit :: int where
  "githubConcurrencyLimit = 5"

text \<open>What holds of a limiter in every state it can reach.\<close>

definition limiter_inv :: "int \<Rightarrow> 'a limiter \<Rightarrow> bool" where
  "limiter_inv c s \<longleftrightarrow>
     activeCount s = int (length (running s))
   \<and> activeCount s \<le> c
   \<and> (queue s \<noteq> [] \<longrightarrow> activeCount s = c)
   \<and> submitted s = started s @ queue s"

text \<open>Seven submissions to a fresh limiter, the state they lead to, and two settlements after.\<close>

definition seven_submits :: "nat event list" where
  "seven_submits = [Submit 0, Submit 1, Submit 2, Submit 3, Submit 4, Submit 5, Submit 6]"

definition after_seven :: "nat limiter" where
  "after_seven = \<lparr>activeCount = 5, queue = [5, 6], submitted = [0, 1, 2, 3, 4, 5, 6],
                   started = [0, 1, 2, 3, 4], running = [0, 1, 2, 3, 4]\<rparr>"

definition two_settles :: "nat event list" where
  "two_settles = [Settle 0 Rejected, Settle 3 Fulfilled]"

definition after_two_settles :: "nat limiter" where
  "after_two_settles = \<lparr>activeCount = 5, queue = [], submitted = [0, 1, 2, 3, 4, 5, 6],
                   started = [0, 1, 2, 3, 4, 5, 6], running = [1, 2, 4, 5, 6]\<rparr>"

section \<open>Primary context from a file name in the question (query-ai route)\<close>

text \<open>
  The alternation of extensions in the file name pattern, in the order the pattern
  gives them.
\<close>

definition source_extensions :: "string list" where
  "source_extensions =
     [''ts'', ''tsx'', ''js'', ''jsx'', ''py'', ''java'', ''kt'', ''swift'', ''go'', ''rb'',
      ''php'', ''rs'', ''c'', ''cpp'', ''cs'', ''json'', ''md'', ''yml'', ''yaml'', ''xml'',
      ''html'', ''css'']"

text \<open>\<open>\w\<close> and the class \<open>[\w\-\/]\<close>.\<close>

definition is_word_char :: "char \<Rightarrow> bool" where
  "is_word_char c = (is_alnum c \<or> c = CHR ''_'')"

definition is_name_char :: "char \<Rightarrow> bool" where
  "is_name_char c = (is_word_char c \<or> c = CHR ''-'' \<or> c = CHR ''/'')"

text \<open>
  An extension matches the text after the dot when it is a prefix of it, letter case
  ignored, and a word boundary follows: the end of the text or a non-word character.
\<close>

definition ext_matches :: "string \<Rightarrow> string \<Rightarrow> bool" where
  "ext_matches ext rest =
     (length ext \<le> length rest
      \<and> toLowerCase (take (length ext) rest) = ext
      \<and> (case drop (length ext) rest of [] \<Rightarrow> True | c # cs \<Rightarrow> \<not> is_word_char c))"

text \<open>
  A match of the pattern that begins at the first character of the text: the longest
  run of name characters (a shorter run is followed by a name character, never by the
  dot), the dot, and the first extension of the alternation that matches.
\<close>

definition match_here :: "string \<Rightarrow> string option" where
  "match_here s =
     (let name = takeWhile is_name_char s; rest = dropWhile is_name_char s
      in if name = [] then None
         else (case rest of
                 [] \<Rightarrow> None
               | d # after \<Rightarrow>
                   if d \<noteq> CHR ''.'' then None
                   else (case find (\<lambda>e. ext_matches e after) source_extensions of
                           None \<Rightarrow> None
                         | Some e \<Rightarrow> Some (name @ [d] @ take (length e) after))))"

text \<open>\<open>question.match(...)\<close>: the leftmost match; its group 1 is the whole match.\<close>

fun filename_match :: "string \<Rightarrow> string option" where
  "filename_match [] = None"
| "filename_match (c # cs) =
     (case match_here (c # cs) of
        Some m \<Rightarrow> Some m
      | None \<Rightarrow> filename_match cs)"

text \<open>\<open>mentionedName.split('/').pop()?.toLowerCase() || mentionedName.toLowerCase()\<close>.\<close>

definition mention_base :: "string \<Rightarrow> string" where
  "mention_base mentionedName =
     (let b = toLowerCase (last (split_on (CHR ''/'') mentionedName))
      in if b \<noteq> [] then b else toLowerCase mentionedName)"

text \<open>\<open>String.prototype.endsWith\<close> and \<open>String.prototype.includes\<close>.\<close>

definition endsWith :: "string \<Rightarrow> string \<Rightarrow> bool" where
  "endsWith p b = (length b \<le> length p \<and> drop (length p - length b) p = b)"

fun includes_str :: "string \<Rightarrow> string \<Rightarrow> bool" where
  "includes_str [] b = (b = [])"
| "includes_str (c # cs) b = (take (length b) (c # cs) = b \<or> includes_str cs b)"

text \<open>The \<open>_localScore\<close> of a candidate.\<close>

definition local_score :: "string \<Rightarrow> file_doc \<Rightarrow> int" where
  "local_score mentionedName m =
     (let p = toLowerCase (file_path m); base = mention_base mentionedName
      in if p = toLowerCase mentionedName then 3
         else if endsWith p base then 2
         else if includes_str p base then 1
         else 0)"

text \<open>The comparator of the sort: higher score first, then shorter path.\<close>

definition compare_scored :: "(file_doc \<times> int) \<Rightarrow> (file_doc \<times> int) \<Rightarrow> int" where
  "compare_scored a b =
     (if snd a \<noteq> snd b then snd b - snd a
      else int (length (file_path (fst a))) - int (length (file_path (fst b))))"

text \<open>
  \<open>Array.prototype.sort\<close> with a comparator: a stable sort, here by insertion from
  the right.
\<close>

fun insert_by :: "('a \<Rightarrow> 'a \<Rightarrow> int) \<Rightarrow> 'a \<Rightarrow> 'a list \<Rightarrow> 'a list" where
  "insert_by cmp x [] = [x]"
| "insert_by cmp x (y # ys) =
     (if cmp x y \<le> 0 then x # y # ys else y # insert_by cmp x ys)"

definition sort_by :: "('a \<Rightarrow> 'a \<Rightarrow> int) \<Rightarrow> 'a list \<Rightarrow> 'a list" where
  "sort_by cmp xs = foldr (insert_by cmp) xs []"

text \<open>
  The candidates with a path, scored, those with a positive score kept, sorted.
\<close>

definition scored_matches :: "string \<Rightarrow> file_doc list \<Rightarrow> (file_doc \<times> int) list" where
  "scored_matches mentionedName candidates =
     sort_by compare_scored
       (filter (\<lambda>m. snd m > 0)
          (map (\<lambda>m. (m, local_score mentionedName m))
             (filter (\<lambda>c. file_path c \<noteq> []) candidates)))"

text \<open>
  The file name branch of the route when no file is open: the path that becomes
  \<open>selectedPath\<close>, with its score. \<open>search\<close> is the search engine's answer to a query
  (\<open>searchFilesInRepository\<close> for the repository at hand).
\<close>

definition detect_primary :: "(string \<Rightarrow> file_doc list) \<Rightarrow> string \<Rightarrow> (string \<times> int) option" where
  "detect_primary search question =
     (case filename_match question of
        None \<Rightarrow> None
      | Some mentionedName \<Rightarrow>
          (case scored_matches mentionedName (search (mention_base mentionedName)) of
             [] \<Rightarrow> None
           | best # others \<Rightarrow> Some (file_path (fst best), snd best)))"

text \<open>A document of repository \<open>r1\<close> with a path and a content.\<close>

definition doc_at :: "string \<Rightarrow> file_doc" where
  "doc_at p = \<lparr>doc_id = ''r1_'' @ sanitize_path p, doc_repo_id = ''r1'', file_path = p,
               file_content = ''text'', file_size = 4, file_language = None,
               file_type = ''file''\<rparr>"

text \<open>Two search engines that answer every query with a fixed list of documents.\<close>

definition three_file_search :: "string \<Rightarrow> file_doc list" where
  "three_file_search q = [doc_at ''README.md'', doc_at ''src/index.ts'', doc_at ''src/utils.ts'']"

definition lib_only_search :: "string \<Rightarrow> file_doc list" where
  "lib_only_search q = [doc_at ''lib/utils.ts'']"

section \<open>Tree builder (buildFileTree, lib/github)\<close>

text \<open>An entry of the host's recursive tree listing: \<open>type\<close> is \<open>blob\<close>, \<open>tree\<close> or
  \<open>commit\<close>.\<close>

record tree_item =
  item_path :: string
  item_type :: string

text \<open>
  The node objects \<open>buildFileTree\<close> creates live in \<open>fileMap\<close>, one per path, and are
  shared between the map, the children arrays and \<open>rootFiles\<close>. A reference to a node is
  its key in the map; \<open>children\<close> and \<open>rootFiles\<close> hold references.
\<close>

record tree_cell =
  cell_path :: string
  cell_kind :: node_type
  cell_children :: "string list"

type_synonym file_map = "string \<rightharpoonup> tree_cell"

text \<open>First pass: \<open>fileMap.set(item.path, {...})\<close> for every item, in order.\<close>

definition new_cell :: "tree_item \<Rightarrow> tree_cell" where
  "new_cell item =
     \<lparr>cell_path = item_path item,
      cell_kind = (if item_type item = ''tree'' then Folder else File),
      cell_children = []\<rparr>"

definition add_item :: "tree_item \<Rightarrow> file_map \<Rightarrow> file_map" where
  "add_item item m = m(item_path item \<mapsto> new_cell item)"

text \<open>\<open>pathParts.length === 1\<close> and \<open>pathParts.slice(0, -1).join('/')\<close>.\<close>

definition is_root_path :: "string \<Rightarrow> bool" where
  "is_root_path p = (length (split_on (CHR ''/'') p) = 1)"

definition parent_path :: "string \<Rightarrow> string" where
  "parent_path p = join_with (CHR ''/'') (butlast (split_on (CHR ''/'') p))"

text \<open>
  Second pass, for one item: a root item and an item whose parent is not in the map go
  to \<open>rootFiles\<close>; any other is appended to the children of its parent.
\<close>

definition link_item :: "tree_item \<Rightarrow> file_map \<times> string list \<Rightarrow> file_map \<times> string list" where
  "link_item item st =
     (case st of (m, rootFiles) \<Rightarrow>
        if is_root_path (item_path item) then (m, rootFiles @ [item_path item])
        else (case m (parent_path (item_path item)) of
                Some parent \<Rightarrow>
                  (m(parent_path (item_path item) \<mapsto>
                       parent\<lparr>cell_children := cell_children parent @ [item_path item]\<rparr>),
                   rootFiles)
              | None \<Rightarrow> (m, rootFiles @ [item_path item])))"

definition build_cells :: "tree_item list \<Rightarrow> file_map \<times> string list" where
  "build_cells treeItems = fold link_item treeItems (fold add_item treeItems Map.empty, [])"

text \<open>
  The tree below a reference, read off the map. The depth read is bounded by the first
  argument; \<open>None\<close> means the bound was reached or a reference dangles.
\<close>

fun read_node :: "nat \<Rightarrow> file_map \<Rightarrow> string \<Rightarrow> file_node option" where
  "read_node 0 m r = None"
| "read_node (Suc n) m r =
     (case m r of
        None \<Rightarrow> None
      | Some cell \<Rightarrow>
          (case those (map (read_node n m) (cell_children cell)) of
             None \<Rightarrow> None
           | Some cs \<Rightarrow> Some (FileNode (cell_path cell) (cell_kind cell) (Some cs))))"

text \<open>
  The comparator of \<open>sortItems\<close>: folders first, then by \<open>localeCompare\<close> of the paths,
  which is the platform's collation and is a parameter here.
\<close>

definition compare_nodes :: "(string \<Rightarrow> string \<Rightarrow> int) \<Rightarrow> file_node \<Rightarrow> file_node \<Rightarrow> int" where
  "compare_nodes localeCompare a b =
     (if node_kind a = Folder \<and> node_kind b = File then -1
      else if node_kind a = File \<and> node_kind b = Folder then 1
      else localeCompare (node_path a) (node_path b))"

definition sortItems :: "(string \<Rightarrow> string \<Rightarrow> int) \<Rightarrow> file_node list \<Rightarrow> file_node list" where
  "sortItems localeCompare items = sort_by (compare_nodes localeCompare) items"

function sortRecursively :: "(string \<Rightarrow> string \<Rightarrow> int) \<Rightarrow> file_node list \<Rightarrow> file_node list"
  and sort_children :: "(string \<Rightarrow> string \<Rightarrow> int) \<Rightarrow> file_node \<Rightarrow> file_node" where
  "sortRecursively lc items = map (sort_children lc) (sortItems lc items)"
| "sort_children lc (FileNode p t ch) =
     FileNode p t
       (case ch of
          None \<Rightarrow> None
        | Some cs \<Rightarrow> if cs \<noteq> [] then Some (sortRecursively lc cs) else Some cs)"
  by pat_completeness auto
termination
proof (relation "measure (\<lambda>x. case x of
                    Inl (lc, items) \<Rightarrow> 2 * size_list size items + 1
                  | Inr (lc, node) \<Rightarrow> 2 * size node)")
  show "wf (measure (\<lambda>x. case x of
                    Inl (lc, items) \<Rightarrow> 2 * size_list size items + 1
                  | Inr (lc, node) \<Rightarrow> 2 * size node))"
    by simp
next
  fix lc :: "string \<Rightarrow> string \<Rightarrow> int" and items :: "file_node list" and x
  assume x: "x \<in> set (sortItems lc items)"
  have ins: "set (insert_by cmp y ys) = insert y (set ys)"
    for cmp and y :: file_node and ys
    by (induction ys) auto
  have "set (sortItems lc items) = set items"
    by (induction items) (simp_all add: sortItems_def sort_by_def ins)
  with x have "x \<in> set items" by simp
  then have "size x \<le> size_list size items" by (simp add: size_list_estimation')
  then show "(Inr (lc, x), Inl (lc, items)) \<in> measure (\<lambda>x. case x of
                    Inl (lc, items) \<Rightarrow> 2 * size_list size items + 1
                  | Inr (lc, node) \<Rightarrow> 2 * size node)"
    by simp
next
  fix lc :: "string \<Rightarrow> string \<Rightarrow> int" and p t
    and ch :: "file_node list option" and x2
  assume "ch = Some x2" "x2 \<noteq> []"
  then show "(Inl (lc, x2), Inr (lc, FileNode p t ch)) \<in> measure (\<lambda>x. case x of
                    Inl (lc, items) \<Rightarrow> 2 * size_list size items + 1
                  | Inr (lc, node) \<Rightarrow> 2 * size node)"
    by simp
qed

text \<open>
  \<open>buildFileTree\<close>: the two passes, then the forest below \<open>rootFiles\<close>, sorted. A path
  below a node is longer than the node's, so the sum of the path lengths bounds the
  depth.
\<close>

definition depth_bound :: "tree_item list \<Rightarrow> nat" where
  "depth_bound treeItems = Suc (sum_list (map (\<lambda>i. length (item_path i)) treeItems))"

definition buildFileTree :: "(string \<Rightarrow> string \<Rightarrow> int) \<Rightarrow> tree_item list \<Rightarrow> file_node list option" where
  "buildFileTree lc treeItems =
     (case build_cells treeItems of
        (m, rootFiles) \<Rightarrow>
          (case those (map (read_node (depth_bound treeItems) m) rootFiles) of
             None \<Rightarrow> None
           | Some roots \<Rightarrow> Some (sortRecursively lc roots)))"

text \<open>The paths of the listing that are files: every entry that is not a \<open>tree\<close>.\<close>

definition listed_files :: "tree_item list \<Rightarrow> string set" where
  "listed_files treeItems = {item_path i | i. i \<in> set treeItems \<and> item_type i \<noteq> ''tree''}"

text \<open>An orphan: an item below the top level whose parent path is not listed.\<close>

definition is_orphan :: "tree_item list \<Rightarrow> tree_item \<Rightarrow> bool" where
  "is_orphan treeItems i =
     (\<not> is_root_path (item_path i)
      \<and> parent_path (item_path i) \<notin> set (map item_path treeItems))"

text \<open>
  The paths of a listing that the second pass appends to the children of a path, and
  those it appends to \<open>rootFiles\<close> when the map has the keys \<open>D\<close>.
\<close>

definition children_in :: "string list \<Rightarrow> string \<Rightarrow> string list" where
  "children_in P p = filter (\<lambda>q. \<not> is_root_path q \<and> parent_path q = p) P"

definition roots_in :: "string set \<Rightarrow> string list \<Rightarrow> string list" where
  "roots_in D P = filter (\<lambda>q. is_root_path q \<or> parent_path q \<notin> D) P"

text \<open>The pairs of path and kind of all the nodes of a forest.\<close>

fun all_nodes :: "file_node list \<Rightarrow> (string \<times> node_type) list"
  and node_entries :: "file_node \<Rightarrow> (string \<times> node_type) list" where
  "all_nodes [] = []"
| "all_nodes (f # fs) = node_entries f @ all_nodes fs"
| "node_entries (FileNode p t ch) =
     (p, t) # (case ch of Some cs \<Rightarrow> all_nodes cs | None \<Rightarrow> [])"

text \<open>A reference reaches another through the children arrays of a map.\<close>

inductive reaches :: "file_map \<Rightarrow> string \<Rightarrow> string \<Rightarrow> bool" for m :: file_map where
  reaches_self: "reaches m r r"
| reaches_child: "m r = Some cell \<Longrightarrow> c \<in> set (cell_children cell) \<Longrightarrow> reaches m c q
                   \<Longrightarrow> reaches m r q"

text \<open>A listing with an orphan, and a comparison of paths by length.\<close>

definition orphan_listing :: "tree_item list" where
  "orphan_listing =
     [\<lparr>item_path = ''src'', item_type = ''tree''\<rparr>,
      \<lparr>item_path = ''src/a.ts'', item_type = ''blob''\<rparr>,
      \<lparr>item_path = ''docs/guide.md'', item_type = ''blob''\<rparr>,
      \<lparr>item_path = ''README.md'', item_type = ''blob''\<rparr>]"

definition by_length :: "string \<Rightarrow> string \<Rightarrow> int" where
  "by_length a b = int (length a) - int (length b)"

section \<open>Auxiliary facts\<close>

lemma push_row_simps:
  "written (push_row rid row s) = written s @ [row]"
  "db_calls (push_row rid row s) = Suc (db_calls s)"
  "indexedFilesCount (push_row rid row s) = indexedFilesCount s"
  "failedFilesCount (push_row rid row s) = failedFilesCount s"
  "es_files (push_row rid row s) = es_files s"
  "progress_table (push_row rid row s) rid = Some row"
  by (simp_all add: push_row_def)

lemma update_ok:
  "db_update E (db_calls s) = None \<Longrightarrow> 0 \<le> prog \<Longrightarrow> prog \<le> 100 \<Longrightarrow>
   updateRepositoryStatus E rid st prog step err tf xf s =
     Inr (push_row rid \<lparr>status = st, progress = prog, current_step = step,
                 error_message = err,
                 total_files = (case tf of Some n \<Rightarrow> n | None \<Rightarrow> 0),
                 indexed_files = (case xf of Some n \<Rightarrow> n | None \<Rightarrow> 0)\<rparr> s)"
  by (simp add: updateRepositoryStatus_def push_row_def Let_def)

lemma update_count:
  "updateRepositoryStatus E rid st prog step err tf xf s = Inr s' \<Longrightarrow>
     indexedFilesCount s' = indexedFilesCount s"
  "updateRepositoryStatus E rid st prog step err tf xf s = Inl (m, s'') \<Longrightarrow>
     indexedFilesCount s'' = indexedFilesCount s"
  by (auto simp add: updateRepositoryStatus_def Let_def split: option.splits if_splits)

lemma callback_count:
  "indexedFilesCount (indexCallback E rid tot p c ft lang s) =
     indexedFilesCount s + (if es_file E p = None then 1 else 0)"
  by (auto simp add: indexCallback_def Let_def update_count split: option.splits sum.splits)

lemma loop_count:
  "indexedFilesCount (indexFilesRecursively E rid tot files s) =
     indexedFilesCount s + length (filter (\<lambda>p. es_file E p = None) (indexed_paths files))"
  "indexedFilesCount (index_one_file E rid tot f s) =
     indexedFilesCount s + length (filter (\<lambda>p. es_file E p = None) (indexed_path f))"
  by (induction E rid tot files s and E rid tot f s
        rule: indexFilesRecursively_index_one_file.induct)
     (simp_all add: callback_count split: option.splits)

lemma count_paths:
  "countFilesRecursively files = length (indexed_paths files)"
  "count_file f = length (indexed_path f)"
  by (induction files and f rule: countFilesRecursively_count_file.induct)
     (simp_all split: option.splits)

lemma run_final_row:
  assumes db: "\<And>n. db_update E n = None"
    and rd: "repo_data E = Inr (name, files)"
    and es: "es_repo E = None"
  shows "written (indexRepositoryAsync E rid s0) \<noteq> []
       \<and> last (written (indexRepositoryAsync E rid s0)) =
           final_row (countFilesRecursively files)
             (length (index_successes E files))
       \<and> progress_table (indexRepositoryAsync E rid s0) rid =
           Some (final_row (countFilesRecursively files)
             (length (index_successes E files)))"
  by (simp add: indexRepositoryAsync_def index_try_def index_steps_def update_ok db rd es
        push_row_simps loop_count final_row_def index_successes_def Let_def)

lemma env_ok_simps:
  "db_update (env_ok files h) n = None"
  "repo_data (env_ok files h) = Inr (''repo'', files)"
  "es_repo (env_ok files h) = None"
  "es_file (env_ok files h) p = None"
  "github (env_ok files h) = h"
  "floor_ratio50 (env_ok files h) i t = (50 * int i) div int t"
  by (simp_all add: env_ok_def)

lemma fetch_first_ok:
  "get_repo h 0 = Ok b \<Longrightarrow> get_content h p (resolve_branch r b) 0 = Ok d \<Longrightarrow>
   fetchRawFileContent h p r = (content_of_data (decode_base64 h) d, 1)"
  by (simp add: fetchRawFileContent_def withRetry_def)

lemma fetch_first_404:
  "get_repo h 0 = Ok b \<Longrightarrow> get_content h p (resolve_branch r b) 0 = Err (Some 404) \<Longrightarrow>
   fetchRawFileContent h p r = (Inr None, 1)"
  by (simp add: fetchRawFileContent_def withRetry_def fetch_catch_def)

lemma host_missing_simps:
  "get_repo (host_missing ms) n = Ok ''main''"
  "get_content (host_missing ms) p r n =
     (if p \<in> set ms then Err (Some 404)
      else Ok (Entry \<lparr>entry_type = ''file'', entry_size = Some 2,
                          entry_encoding = None, entry_content = Some ''ok''\<rparr>))"
  "decode_base64 (host_missing ms) = (\<lambda>s. s)"
  by (simp_all add: host_missing_def)

lemma fetch_host_missing:
  "fst (fetchRawFileContent (host_missing ms) p None) =
     (if p \<in> set ms then Inr None else Inr (Some (''ok'', 2)))"
  by (simp add: fetch_first_ok fetch_first_404 host_missing_simps content_of_data_def)

lemma nothing_host_missing: "fetch_gives_nothing (host_missing ms) p = (p \<in> set ms)"
  by (simp add: fetch_gives_nothing_def fetch_host_missing)

lemma ten_tree_paths: "indexed_paths ten_file_tree = ten_paths"
  by (simp add: ten_file_tree_def ten_paths_def)

lemma ten_tree_count: "countFilesRecursively ten_file_tree = 10"
  by (simp add: count_paths ten_tree_paths ten_paths_def)

lemma seven_index_successes: "length (index_successes (env_index_failing ten_file_tree h [''x.md'', ''y.md'', ''z.md'']) ten_file_tree) = 7"
  by (simp add: index_successes_def ten_tree_paths ten_paths_def env_index_failing_def)

lemma withRetry_loop_spec:
  "withRetry_loop fn r b a ds = (res, calls, ds') \<Longrightarrow> a \<le> r \<Longrightarrow>
     a < calls \<and> calls \<le> r + 1
   \<and> ds' = ds @ map (\<lambda>k. b * 2 ^ k) [a..<calls - 1]
   \<and> res = fn (calls - 1)
   \<and> (\<forall>k. a \<le> k \<and> k < calls - 1 \<longrightarrow> (\<exists>st. fn k = Err st \<and> st \<noteq> Some 404))
   \<and> (calls < r + 1 \<longrightarrow> (\<exists>v. res = Ok v) \<or> res = Err (Some 404))"
proof (induction fn r b a ds rule: withRetry_loop.induct)
  case (1 fn retries baseMs attempt delays)
  show ?case
  proof (cases "fn attempt")
    case (Ok v)
    with "1.prems" have "res = Ok v" "calls = attempt + 1" "ds' = delays" by auto
    with Ok "1.prems" show ?thesis by auto
  next
    case (Err st)
    show ?thesis
    proof (cases "attempt + 1 > retries \<or> st = Some 404")
      case True
      with Err "1.prems" show ?thesis by auto
    next
      case False
      with Err "1.prems"
      have rec: "withRetry_loop fn retries baseMs (attempt + 1)
                   (delays @ [baseMs * 2 ^ (attempt + 1 - 1)]) = (res, calls, ds')"
        by simp
      from False have le: "attempt + 1 \<le> retries" by simp
      note ih = "1.IH" [OF Err False rec le]
      from ih have lt: "attempt + 1 < calls" by simp
      then have upt: "[attempt..<calls - 1] = attempt # [attempt + 1..<calls - 1]"
        by (simp add: upt_conv_Cons)
      have step: "\<And>k. attempt \<le> k \<Longrightarrow> k < calls - 1 \<Longrightarrow> \<exists>st. fn k = Err st \<and> st \<noteq> Some 404"
      proof -
        fix k assume "attempt \<le> k" "k < calls - 1"
        show "\<exists>st. fn k = Err st \<and> st \<noteq> Some 404"
        proof (cases "k = attempt")
          case True
          with Err False show ?thesis by simp
        next
          case False
          with \<open>attempt \<le> k\<close> have "attempt + 1 \<le> k" by simp
          with ih \<open>k < calls - 1\<close> show ?thesis by blast
        qed
      qed
      have d: "ds' = delays @ map (\<lambda>k. baseMs * 2 ^ k) [attempt..<calls - 1]"
        using ih upt by simp
      from ih d step show ?thesis by auto
    qed
  qed
qed

lemma update_calls:
  "updateRepositoryStatus E rid st prog step err tf xf s = Inr s' \<Longrightarrow>
     db_calls s' = db_calls s + 1"
  "updateRepositoryStatus E rid st prog step err tf xf s = Inl (m, s'') \<Longrightarrow>
     db_calls s'' = db_calls s + 1"
  by (auto simp add: updateRepositoryStatus_def Let_def split: option.splits if_splits)

lemma callback_calls:
  "db_calls s \<le> db_calls (indexCallback E rid tot p c ft lang s)"
  by (auto simp add: indexCallback_def Let_def split: option.splits sum.splits
      dest!: update_calls)

lemma loop_calls:
  "db_calls s \<le> db_calls (indexFilesRecursively E rid tot files s)"
  "db_calls s \<le> db_calls (index_one_file E rid tot f s)"
proof (induction E rid tot files s and E rid tot f s
        rule: indexFilesRecursively_index_one_file.induct)
  case (1 E repoId totalFiles s)
  show ?case by simp
next
  case (2 E repoId totalFiles f files s)
  then show ?case
    by simp
next
  case (3 E repoId totalFiles p t ch s)
  then show ?case
    by (auto simp add: callback_calls split: option.splits)
qed

lemma loop_calls_eq:
  "db_calls (indexFilesRecursively E rid tot files s) =
     db_calls s + loop_db_calls E rid tot files s"
  using loop_calls(1) [of s E rid tot files]
  by (simp add: loop_db_calls_def)

lemma steps_calls:
  "index_steps E rid files s = Inr s' \<Longrightarrow> db_calls s \<le> db_calls s'"
  "index_steps E rid files s = Inl (m, s'') \<Longrightarrow> db_calls s \<le> db_calls s''"
  unfolding index_steps_def Let_def
  by (auto split: sum.splits option.splits if_splits dest!: update_calls
      simp add: loop_calls_eq)

lemma run_calls: "db_calls s < db_calls (indexRepositoryAsync E rid s)"
  unfolding indexRepositoryAsync_def index_try_def Let_def
  by (auto split: sum.splits prod.splits option.splits dest!: update_calls steps_calls)

lemma inv_new: "0 \<le> c \<Longrightarrow> limiter_inv c new_limiter"
  by (simp add: limiter_inv_def new_limiter_def)

lemma inv_limit: "limiter_inv c s \<Longrightarrow> limiter_inv c (limit c t s)"
  by (cases "queue s") (auto simp add: limiter_inv_def limit_def next_task_def)

lemma inv_settle:
  assumes "limiter_inv c s" and "t \<in> set (running s)"
  shows "limiter_inv c (settle c t oc s)"
proof -
  from assms(2) have "0 < length (running s)" by (rule length_pos_if_in_set)
  then have "int (length (running s) - Suc 0) = int (length (running s)) - 1"
    by (cases "running s") simp_all
  with assms show ?thesis
    by (cases "queue s")
       (auto simp add: limiter_inv_def settle_def next_task_def length_remove1)
qed

lemma inv_step: "limiter_inv c s \<Longrightarrow> limiter_step c e s = Some s' \<Longrightarrow> limiter_inv c s'"
  by (cases e) (auto simp add: inv_limit inv_settle split: if_splits)

lemma inv_run: "limiter_inv c s \<Longrightarrow> run_events c es s = Some s' \<Longrightarrow> limiter_inv c s'"
  by (induction es arbitrary: s) (auto split: option.splits dest: inv_step)

lemma settle_admits:
  assumes "limiter_inv c s" and "t \<in> set (running s)" and "queue s = x # rest"
  shows "started (settle c t oc s) = started s @ [x]
       \<and> queue (settle c t oc s) = rest
       \<and> activeCount (settle c t oc s) = activeCount s"
  using assms by (auto simp add: limiter_inv_def settle_def next_task_def)

lemma step_progress:
  assumes "limiter_inv c s" and "0 < c" and "limiter_step c e s = Some s'"
  shows "(\<exists>new. submitted s' = submitted s @ new)
       \<and> length (started s) + min (if is_settle e then 1 else 0) (length (queue s))
           \<le> length (started s')"
proof (cases e)
  case (Submit t)
  with assms show ?thesis
    by (cases "queue s") (auto simp add: limit_def next_task_def limiter_inv_def)
next
  case (Settle t oc)
  with assms show ?thesis
    by (cases "queue s")
       (auto simp add: settle_def next_task_def limiter_inv_def split: if_splits)
qed

lemma step_queue_len:
  assumes "limiter_inv c s" and "limiter_step c e s = Some s'"
  shows "length (started s') + length (queue s') =
           length (started s) + length (queue s) + (if is_settle e then 0 else 1)"
proof -
  from assms have i: "limiter_inv c s'" by (rule inv_step)
  from assms(1) have a: "submitted s = started s @ queue s" by (simp add: limiter_inv_def)
  from i have b: "submitted s' = started s' @ queue s'" by (simp add: limiter_inv_def)
  have "length (submitted s') = length (submitted s) + (if is_settle e then 0 else 1)"
    using assms(2)
    by (cases e) (auto simp add: limit_def settle_def next_task_def split: list.splits if_splits)
  with a b show ?thesis by (metis length_append)
qed

lemma run_progress:
  assumes "limiter_inv c s" and "0 < c" and "run_events c es s = Some s'"
  shows "(\<exists>new. submitted s' = submitted s @ new)
       \<and> length (started s) + min (settles es) (length (queue s)) \<le> length (started s')"
  using assms
proof (induction es arbitrary: s)
  case Nil
  then show ?case by (simp add: settles_def)
next
  case (Cons e es)
  from Cons.prems obtain s1 where s1: "limiter_step c e s = Some s1" and r: "run_events c es s1 = Some s'"
    by (auto split: option.splits)
  from Cons.prems(1) s1 have i1: "limiter_inv c s1" by (rule inv_step)
  note ih = Cons.IH [OF i1 Cons.prems(2) r]
  note sp = step_progress [OF Cons.prems(1) Cons.prems(2) s1]
  note ql = step_queue_len [OF Cons.prems(1) s1]
  from ih sp have pre: "\<exists>new. submitted s' = submitted s @ new" by auto
  have "length (started s) + min (settles (e # es)) (length (queue s)) \<le> length (started s')"
  proof (cases "is_settle e")
    case True
    then have "settles (e # es) = Suc (settles es)" by (simp add: settles_def)
    with True ih sp ql show ?thesis by (auto simp add: min_def split: if_splits)
  next
    case False
    then have "settles (e # es) = settles es" by (simp add: settles_def)
    with False ih sp ql show ?thesis by (auto simp add: min_def split: if_splits)
  qed
  with pre show ?case by blast
qed

lemma queued_task_runs:
  assumes inv: "limiter_inv c s" and c: "0 < c" and run: "run_events c es s = Some s'"
    and k: "k < length (queue s)" and m: "k < settles es"
  shows "length (started s) + k < length (started s')
       \<and> started s' ! (length (started s) + k) = queue s ! k"
proof -
  from run_progress [OF inv c run] obtain new where
    sub: "submitted s' = submitted s @ new"
    and len: "length (started s) + min (settles es) (length (queue s)) \<le> length (started s')"
    by blast
  from k m len have lt: "length (started s) + k < length (started s')" by (simp add: min_def split: if_splits)
  from inv have a: "submitted s = started s @ queue s" by (simp add: limiter_inv_def)
  from inv_run [OF inv run] have b: "submitted s' = started s' @ queue s'"
    by (simp add: limiter_inv_def)
  have "started s' ! (length (started s) + k) = submitted s' ! (length (started s) + k)"
    using lt b by (simp add: nth_append)
  also have "\<dots> = submitted s ! (length (started s) + k)"
    using sub a k by (simp add: nth_append)
  also have "\<dots> = queue s ! k"
    using a by (simp add: nth_append)
  finally show ?thesis using lt by simp
qed

lemma endsWith_iff: "endsWith p b \<longleftrightarrow> (\<exists>pre. p = pre @ b)"
proof
  assume "endsWith p b"
  then have "p = take (length p - length b) p @ b"
    by (metis append_take_drop_id endsWith_def)
  then show "\<exists>pre. p = pre @ b" ..
next
  assume "\<exists>pre. p = pre @ b"
  then show "endsWith p b" by (auto simp add: endsWith_def)
qed

lemma take_prefix_iff: "take (length b) xs = b \<longleftrightarrow> (\<exists>post. xs = b @ post)"
proof
  assume "take (length b) xs = b"
  then have "xs = b @ drop (length b) xs" by (metis append_take_drop_id)
  then show "\<exists>post. xs = b @ post" ..
next
  assume "\<exists>post. xs = b @ post"
  then show "take (length b) xs = b" by auto
qed

lemma includes_iff: "includes_str p b \<longleftrightarrow> (\<exists>pre post. p = pre @ b @ post)"
proof (induction p)
  case Nil
  show ?case by auto
next
  case (Cons c cs)
  have "(\<exists>pre post. c # cs = pre @ b @ post) \<longleftrightarrow>
        (\<exists>post. c # cs = b @ post) \<or> (\<exists>pre post. cs = pre @ b @ post)"
  proof
    assume "\<exists>pre post. c # cs = pre @ b @ post"
    then obtain pre post where e: "c # cs = pre @ b @ post" by blast
    show "(\<exists>post. c # cs = b @ post) \<or> (\<exists>pre post. cs = pre @ b @ post)"
    proof (cases pre)
      case Nil
      with e show ?thesis by auto
    next
      case (Cons a pre')
      with e have "cs = pre' @ b @ post" by simp
      then show ?thesis by blast
    qed
  next
    assume "(\<exists>post. c # cs = b @ post) \<or> (\<exists>pre post. cs = pre @ b @ post)"
    then show "\<exists>pre post. c # cs = pre @ b @ post"
    proof
      assume "\<exists>post. c # cs = b @ post"
      then obtain post where "c # cs = [] @ b @ post" by auto
      then show ?thesis by blast
    next
      assume "\<exists>pre post. cs = pre @ b @ post"
      then obtain pre post where "cs = pre @ b @ post" by blast
      then have "c # cs = (c # pre) @ b @ post" by simp
      then show ?thesis by blast
    qed
  qed
  with Cons show ?case by (simp only: includes_str.simps take_prefix_iff)
qed

lemma set_insert_by: "set (insert_by cmp x ys) = insert x (set ys)"
  by (induction ys) auto

lemma set_sort_by: "set (sort_by cmp xs) = set xs"
  by (induction xs) (simp_all add: sort_by_def set_insert_by)

lemma sort_by_Cons: "sort_by cmp (x # xs) = insert_by cmp x (sort_by cmp xs)"
  by (simp add: sort_by_def)

lemma compare_total: "compare_scored a b \<le> 0 \<or> compare_scored b a \<le> 0"
  by (auto simp add: compare_scored_def)

lemma compare_trans:
  "compare_scored a b \<le> 0 \<Longrightarrow> compare_scored b c \<le> 0 \<Longrightarrow> compare_scored a c \<le> 0"
  by (auto simp add: compare_scored_def split: if_splits)

lemma sorted_head_least:
  "sort_by compare_scored xs = b # rest \<Longrightarrow> y \<in> set xs \<Longrightarrow> compare_scored b y \<le> 0"
proof (induction xs arbitrary: b rest y)
  case Nil
  then show ?case by simp
next
  case (Cons x xs)
  show ?case
  proof (cases "sort_by compare_scored xs")
    case Nil
    then have "set xs = {}" using set_sort_by [of compare_scored xs] by simp
    then have "xs = []" by simp
    with Cons.prems have "b = x" "y = x" by (simp_all add: sort_by_def)
    then show ?thesis by (simp add: compare_scored_def)
  next
    case (Cons b0 r0)
    note ih = Cons.IH [OF Cons]
    show ?thesis
    proof (cases "compare_scored x b0 \<le> 0")
      case True
      with Cons Cons.prems(1) have b: "b = x" by (simp add: sort_by_Cons)
      show ?thesis
      proof (cases "y = x")
        case True
        with b show ?thesis by (simp add: compare_scored_def)
      next
        case False
        with Cons.prems(2) have "y \<in> set xs" by simp
        then have "compare_scored b0 y \<le> 0" by (rule ih)
        with \<open>compare_scored x b0 \<le> 0\<close> b show ?thesis by (blast intro: compare_trans)
      qed
    next
      case False
      with Cons Cons.prems(1) have b: "b = b0" by (simp add: sort_by_Cons)
      from False compare_total [of x b0] have bx: "compare_scored b0 x \<le> 0" by simp
      show ?thesis
      proof (cases "y = x")
        case True
        with b bx show ?thesis by simp
      next
        case False
        with Cons.prems(2) have "y \<in> set xs" by simp
        then show ?thesis unfolding b by (rule ih)
      qed
    qed
  qed
qed

lemma scored_matches_set:
  "set (scored_matches m cands) =
     {(d, local_score m d) | d. d \<in> set cands \<and> file_path d \<noteq> [] \<and> 0 < local_score m d}"
  by (auto simp add: scored_matches_def set_sort_by)

lemma scored_head_best:
  assumes "scored_matches m cands = (b, sc) # rest"
  shows "b \<in> set cands \<and> file_path b \<noteq> [] \<and> sc = local_score m b \<and> 0 < sc
       \<and> (\<forall>d \<in> set cands. file_path d \<noteq> [] \<longrightarrow>
             local_score m d \<le> sc
           \<and> (local_score m d = sc \<longrightarrow> length (file_path b) \<le> length (file_path d)))"
proof -
  have "(b, sc) \<in> set (scored_matches m cands)" using assms by simp
  then have in_set: "b \<in> set cands \<and> file_path b \<noteq> [] \<and> sc = local_score m b \<and> 0 < sc"
    by (auto simp add: scored_matches_set)
  have best: "local_score m d \<le> sc
           \<and> (local_score m d = sc \<longrightarrow> length (file_path b) \<le> length (file_path d))"
    if d: "d \<in> set cands" "file_path d \<noteq> []" for d
  proof (cases "0 < local_score m d")
    case True
    with d have "(d, local_score m d) \<in> set (filter (\<lambda>m. snd m > 0)
          (map (\<lambda>c. (c, local_score m c)) (filter (\<lambda>c. file_path c \<noteq> []) cands)))"
      by auto
    with assms have "compare_scored (b, sc) (d, local_score m d) \<le> 0"
      unfolding scored_matches_def by (rule sorted_head_least)
    then show ?thesis by (auto simp add: compare_scored_def split: if_splits)
  next
    case False
    with in_set show ?thesis by auto
  qed
  from in_set best show ?thesis by blast
qed

lemma detect_primary_Some:
  assumes "filename_match q = Some m" and "detect_primary search q = Some (p, sc)"
  shows "\<exists>b \<in> set (search (mention_base m)). file_path b = p \<and> p \<noteq> []
           \<and> sc = local_score m b \<and> 0 < sc
           \<and> (\<forall>d \<in> set (search (mention_base m)). file_path d \<noteq> [] \<longrightarrow>
                 local_score m d \<le> sc
               \<and> (local_score m d = sc \<longrightarrow> length p \<le> length (file_path d)))"
proof -
  from assms obtain b rest where
    h: "scored_matches m (search (mention_base m)) = (b, sc) # rest" and p: "p = file_path b"
    by (auto simp add: detect_primary_def split: list.splits)
  from scored_head_best [OF h] p show ?thesis by blast
qed

lemma detect_primary_None:
  assumes "filename_match q = Some m"
  shows "detect_primary search q = None \<longleftrightarrow>
           (\<forall>d \<in> set (search (mention_base m)). file_path d \<noteq> [] \<longrightarrow> local_score m d \<le> 0)"
proof -
  have "detect_primary search q = None \<longleftrightarrow> set (scored_matches m (search (mention_base m))) = {}"
    using assms by (auto simp add: detect_primary_def split: list.splits)
  also have "\<dots> \<longleftrightarrow> (\<forall>d \<in> set (search (mention_base m)). file_path d \<noteq> [] \<longrightarrow> local_score m d \<le> 0)"
    by (auto simp add: scored_matches_set)
  finally show ?thesis .
qed


lemmas char_class_defs = is_name_char_def is_word_char_def is_alnum_def lower_letters_def
  upper_letters_def digit_chars_def

lemmas lower_defs = toLowerCase_def lower_char_def lower_letters_def upper_letters_def

lemma match_utils: "filename_match ''what does utils.ts do'' = Some ''utils.ts''"
  by (simp add: match_here_def char_class_defs ext_matches_def source_extensions_def
      lower_defs Let_def)

lemma match_src_utils: "filename_match ''what does src/utils.ts do'' = Some ''src/utils.ts''"
  by (simp add: match_here_def char_class_defs ext_matches_def source_extensions_def
      lower_defs Let_def)

lemma base_utils: "mention_base ''utils.ts'' = ''utils.ts''"
  "mention_base ''src/utils.ts'' = ''utils.ts''"
  by (simp_all add: mention_base_def lower_defs Let_def)

lemma scenario_scores:
  "file_path d = ''README.md'' \<Longrightarrow> local_score ''utils.ts'' d = 0"
  "file_path d = ''src/index.ts'' \<Longrightarrow> local_score ''utils.ts'' d = 0"
  "file_path d = ''src/utils.ts'' \<Longrightarrow> local_score ''utils.ts'' d = 2"
  by (simp_all add: local_score_def base_utils lower_defs endsWith_def Let_def)

lemma lib_score: "local_score ''src/utils.ts'' (doc_at ''lib/utils.ts'') = 2"
  by (simp add: local_score_def base_utils lower_defs endsWith_def Let_def doc_at_def)

lemma local_score_cases:
  "(local_score m d = 3 \<longleftrightarrow> toLowerCase (file_path d) = toLowerCase m)
   \<and> (local_score m d = 2 \<longleftrightarrow>
        toLowerCase (file_path d) \<noteq> toLowerCase m
        \<and> (\<exists>pre. toLowerCase (file_path d) = pre @ mention_base m))
   \<and> (local_score m d = 1 \<longleftrightarrow>
        toLowerCase (file_path d) \<noteq> toLowerCase m
        \<and> \<not> (\<exists>pre. toLowerCase (file_path d) = pre @ mention_base m)
        \<and> (\<exists>pre post. toLowerCase (file_path d) = pre @ mention_base m @ post))
   \<and> 0 \<le> local_score m d \<and> local_score m d \<le> 3"
  by (simp add: local_score_def Let_def endsWith_iff includes_iff)

lemma scenario_primary:
  assumes sub: "set (map file_path (search ''utils.ts''))
                  \<subseteq> {''README.md'', ''src/index.ts'', ''src/utils.ts''}"
    and mem: "''src/utils.ts'' \<in> set (map file_path (search ''utils.ts''))"
  shows "detect_primary search ''what does utils.ts do'' = Some (''src/utils.ts'', 2)"
proof -
  from mem obtain d0 where d0: "d0 \<in> set (search ''utils.ts'')" "file_path d0 = ''src/utils.ts''"
    by auto
  have "detect_primary search ''what does utils.ts do'' \<noteq> None"
  proof
    assume "detect_primary search ''what does utils.ts do'' = None"
    with detect_primary_None [OF match_utils, of search] d0
    have "local_score ''utils.ts'' d0 \<le> 0" by (simp add: base_utils)
    with scenario_scores(3) [OF d0(2)] show False by simp
  qed
  then obtain p sc where ps: "detect_primary search ''what does utils.ts do'' = Some (p, sc)"
    by (cases "detect_primary search ''what does utils.ts do''") auto
  from detect_primary_Some [OF match_utils ps] obtain b where
    b: "b \<in> set (search ''utils.ts'')" "file_path b = p" "sc = local_score ''utils.ts'' b" "0 < sc"
    by (auto simp add: base_utils)
  from b(1) sub have "file_path b \<in> {''README.md'', ''src/index.ts'', ''src/utils.ts''}"
    by auto
  with b(3,4) scenario_scores [of b] have "file_path b = ''src/utils.ts''" by auto
  with b(2,3) scenario_scores(3) [of b] ps show ?thesis by simp
qed

lemma split_on_nonempty: "split_on sep s \<noteq> []"
  by (induction s) (auto split: list.splits)

lemma join_snoc: "xs \<noteq> [] \<Longrightarrow> join_with sep (xs @ [y]) = join_with sep xs @ sep # y"
  by (induction sep xs rule: join_with.induct) auto

lemma join_split: "join_with sep (split_on sep s) = s"
proof (induction s)
  case Nil
  show ?case by simp
next
  case (Cons c cs)
  obtain w ws where sp: "split_on sep cs = w # ws"
    using split_on_nonempty [of sep cs] by (cases "split_on sep cs") auto
  show ?case
  proof (cases "c = sep")
    case True
    with Cons sp show ?thesis by simp
  next
    case False
    with Cons sp show ?thesis by (cases ws) auto
  qed
qed

lemma parent_shorter:
  assumes "\<not> is_root_path p"
  shows "length (parent_path p) < length p"
proof -
  let ?parts = "split_on (CHR ''/'') p"
  have ne: "?parts \<noteq> []" by (rule split_on_nonempty)
  with assms have b: "butlast ?parts \<noteq> []"
    by (cases ?parts) (auto simp add: is_root_path_def)
  from ne have "?parts = butlast ?parts @ [last ?parts]" by simp
  then have "join_with (CHR ''/'') ?parts =
             join_with (CHR ''/'') (butlast ?parts) @ CHR ''/'' # last ?parts"
    using join_snoc [OF b] by metis
  then have "p = parent_path p @ CHR ''/'' # last ?parts"
    by (simp add: join_split parent_path_def)
  then have "length p = length (parent_path p) + Suc (length (last ?parts))"
    by (metis length_append length_Cons)
  then show ?thesis by simp
qed

lemma fold_add_other:
  "p \<notin> set (map item_path items) \<Longrightarrow> fold add_item items m p = m p"
  by (induction items arbitrary: m) (auto simp add: add_item_def)

lemma fold_add_item:
  "distinct (map item_path items) \<Longrightarrow> i \<in> set items \<Longrightarrow>
     fold add_item items m (item_path i) = Some (new_cell i)"
proof (induction items arbitrary: m)
  case Nil
  then show ?case by simp
next
  case (Cons j js)
  show ?case
  proof (cases "i = j")
    case True
    with Cons.prems have "item_path i \<notin> set (map item_path js)" by simp
    then have "fold add_item js (add_item j m) (item_path i) = add_item j m (item_path i)"
      by (rule fold_add_other)
    moreover have "add_item j m (item_path j) = Some (new_cell j)"
      by (simp add: add_item_def)
    ultimately show ?thesis using True by simp
  next
    case False
    with Cons show ?thesis by simp
  qed
qed

lemma fold_add_dom: "dom (fold add_item items m) = dom m \<union> set (map item_path items)"
  by (induction items arbitrary: m) (auto simp add: add_item_def)

lemma link_item_dom: "dom (fst (link_item i (m, roots))) = dom m"
  by (auto simp add: link_item_def split: option.splits)

lemma fold_link:
  "fold link_item items (m, roots) =
     (\<lambda>p. map_option
             (\<lambda>c. c\<lparr>cell_children := cell_children c @ children_in (map item_path items) p\<rparr>)
             (m p),
      roots @ roots_in (dom m) (map item_path items))"
proof (induction items arbitrary: m roots)
  case Nil
  have "(\<lambda>p. map_option (\<lambda>c. c\<lparr>cell_children := cell_children c @ []\<rparr>) (m p)) = m"
    by (rule ext) (simp add: option.map_ident)
  then show ?case by (simp add: children_in_def roots_in_def)
next
  case (Cons i items)
  obtain m1 roots1 where l: "link_item i (m, roots) = (m1, roots1)"
    by (cases "link_item i (m, roots)") auto
  then have d: "dom m1 = dom m" using link_item_dom [of i m roots] by simp
  let ?P = "map item_path items"
  have r: "roots1 @ roots_in (dom m) ?P = roots @ roots_in (dom m) (item_path i # ?P)"
    using l by (auto simp add: link_item_def roots_in_def split: option.splits if_splits)
  have c: "map_option (\<lambda>c. c\<lparr>cell_children := cell_children c @ children_in ?P p\<rparr>) (m1 p) =
           map_option (\<lambda>c. c\<lparr>cell_children := cell_children c
                                   @ children_in (item_path i # ?P) p\<rparr>) (m p)" for p
    using l by (auto simp add: link_item_def children_in_def split: option.splits if_splits)
  have "fold link_item (i # items) (m, roots) = fold link_item items (m1, roots1)"
    using l by simp
  also have "\<dots> = (\<lambda>p. map_option
             (\<lambda>c. c\<lparr>cell_children := cell_children c @ children_in ?P p\<rparr>) (m1 p),
      roots1 @ roots_in (dom m1) ?P)"
    by (rule Cons.IH)
  also have "\<dots> = (\<lambda>p. map_option
             (\<lambda>c. c\<lparr>cell_children := cell_children c @ children_in (item_path i # ?P) p\<rparr>) (m p),
      roots @ roots_in (dom m) (item_path i # ?P))"
    using r c d by simp
  finally show ?case by simp
qed

lemma build_cells_eq:
  assumes "distinct (map item_path items)"
  shows "snd (build_cells items) =
           roots_in (set (map item_path items)) (map item_path items)"
    and "i \<in> set items \<Longrightarrow> fst (build_cells items) (item_path i) =
           Some \<lparr>cell_path = item_path i,
                 cell_kind = (if item_type i = ''tree'' then Folder else File),
                 cell_children = children_in (map item_path items) (item_path i)\<rparr>"
    and "p \<notin> set (map item_path items) \<Longrightarrow> fst (build_cells items) p = None"
proof -
  show "snd (build_cells items) = roots_in (set (map item_path items)) (map item_path items)"
    by (simp add: build_cells_def fold_link fold_add_dom)
  show "fst (build_cells items) (item_path i) =
           Some \<lparr>cell_path = item_path i,
                 cell_kind = (if item_type i = ''tree'' then Folder else File),
                 cell_children = children_in (map item_path items) (item_path i)\<rparr>"
    if "i \<in> set items"
    using fold_add_item [OF assms that, of Map.empty]
    by (simp add: build_cells_def fold_link new_cell_def)
  show "fst (build_cells items) p = None" if "p \<notin> set (map item_path items)"
    using fold_add_other [OF that, of Map.empty]
    by (simp add: build_cells_def fold_link)
qed


lemma those_map:
  "those (map f xs) = (if \<forall>x \<in> set xs. f x \<noteq> None then Some (map (\<lambda>x. the (f x)) xs) else None)"
  by (induction xs) (auto split: option.splits)

lemma set_all_nodes: "set (all_nodes ts) = (\<Union>t \<in> set ts. set (node_entries t))"
  by (induction ts) auto

lemma flatten_nodes:
  "set (flattenFiles ts) = {p. (p, File) \<in> set (all_nodes ts)}"
  "set (flatten_file t) = {p. (p, File) \<in> set (node_entries t)}"
  by (induction ts and t rule: flattenFiles_flatten_file.induct)
     (auto split: option.splits)

lemma set_sortItems: "set (sortItems lc items) = set items"
proof -
  have ins: "set (insert_by cmp y ys) = insert y (set ys)" for cmp and y :: file_node and ys
    by (induction ys) auto
  show ?thesis
    by (induction items) (simp_all add: sortItems_def sort_by_def ins)
qed

lemma sort_keeps_nodes:
  "set (all_nodes (sortRecursively lc items)) = set (all_nodes items)"
  "set (node_entries (sort_children lc t)) = set (node_entries t)"
proof (induction lc items and lc t rule: sortRecursively_sort_children.induct)
  case (1 lc items)
  have "set (all_nodes (sortRecursively lc items)) =
          (\<Union>x \<in> set (sortItems lc items). set (node_entries (sort_children lc x)))"
    by (simp add: set_all_nodes)
  also have "\<dots> = (\<Union>x \<in> set (sortItems lc items). set (node_entries x))"
    using 1 by simp
  also have "\<dots> = set (all_nodes items)"
    by (simp add: set_all_nodes set_sortItems)
  finally show ?case .
next
  case (2 lc p t ch)
  then show ?case by (auto split: option.splits if_splits)
qed

lemma sort_children_path: "node_path (sort_children lc t) = node_path t"
  by (cases t) simp

lemma sort_keeps_roots:
  "set (map node_path (sortRecursively lc items)) = set (map node_path items)"
proof -
  have "set (map node_path (sortRecursively lc items)) = node_path ` set (sortItems lc items)"
    by (auto simp add: sort_children_path image_iff)
  then show ?thesis by (simp add: set_sortItems)
qed

lemma read_node_sound:
  assumes keyed: "\<And>q c. m q = Some c \<Longrightarrow> cell_path c = q"
  shows "read_node n m r = Some t \<Longrightarrow> (q, k) \<in> set (node_entries t) \<Longrightarrow>
           reaches m r q \<and> (\<exists>c. m q = Some c \<and> cell_kind c = k)"
proof (induction n arbitrary: r t q k)
  case 0
  then show ?case by simp
next
  case (Suc n)
  from Suc.prems(1) obtain cell where cell: "m r = Some cell"
    by (auto split: option.splits)
  with Suc.prems(1) have ok: "\<forall>x \<in> set (cell_children cell). read_node n m x \<noteq> None"
    and t: "t = FileNode (cell_path cell) (cell_kind cell)
                  (Some (map (\<lambda>x. the (read_node n m x)) (cell_children cell)))"
    by (auto simp add: those_map split: if_splits)
  from Suc.prems(2) t
  consider "q = cell_path cell \<and> k = cell_kind cell"
    | x where "x \<in> set (cell_children cell)" "(q, k) \<in> set (node_entries (the (read_node n m x)))"
    by (auto simp add: set_all_nodes)
  then show ?case
  proof cases
    case 1
    with cell keyed [OF cell] show ?thesis by (auto intro: reaches_self)
  next
    case 2
    from ok 2(1) obtain tx where tx: "read_node n m x = Some tx" by auto
    with 2(2) have "(q, k) \<in> set (node_entries tx)" by simp
    from Suc.IH [OF tx this] cell 2(1) show ?thesis by (auto intro: reaches_child)
  qed
qed

lemma read_node_complete:
  assumes keyed: "\<And>q c. m q = Some c \<Longrightarrow> cell_path c = q"
  shows "reaches m r q \<Longrightarrow> read_node n m r = Some t \<Longrightarrow> m q = Some c \<Longrightarrow>
           (q, cell_kind c) \<in> set (node_entries t)"
proof (induction arbitrary: n t rule: reaches.induct)
  case (reaches_self r)
  then obtain n' where n: "n = Suc n'" by (cases n) auto
  with reaches_self keyed [OF reaches_self(2)] show ?case
    by (auto simp add: those_map split: option.splits if_splits)
next
  case (reaches_child r cell x q)
  then obtain n' where n: "n = Suc n'" by (cases n) auto
  with reaches_child.prems(1) reaches_child.hyps(1)
  have ok: "\<forall>y \<in> set (cell_children cell). read_node n' m y \<noteq> None"
    and t: "t = FileNode (cell_path cell) (cell_kind cell)
                  (Some (map (\<lambda>y. the (read_node n' m y)) (cell_children cell)))"
    by (auto simp add: those_map split: if_splits)
  from ok reaches_child.hyps(2) obtain tx where tx: "read_node n' m x = Some tx" by auto
  from reaches_child.IH [OF tx reaches_child.prems(2)]
  have "(q, cell_kind c) \<in> set (node_entries tx)" .
  with t tx reaches_child.hyps(2) show ?case
    by (auto simp add: set_all_nodes intro!: bexI [of _ x])
qed

lemma read_node_total:
  assumes closed: "\<And>q c x. m q = Some c \<Longrightarrow> x \<in> set (cell_children c) \<Longrightarrow>
                      x \<in> dom m \<and> length q < length x"
    and bound: "\<And>q. q \<in> dom m \<Longrightarrow> length q \<le> L"
  shows "r \<in> dom m \<Longrightarrow> L < n + length r \<Longrightarrow> read_node n m r \<noteq> None"
proof (induction n arbitrary: r)
  case 0
  with bound [of r] show ?case by simp
next
  case (Suc n)
  from Suc.prems(1) obtain cell where cell: "m r = Some cell" by auto
  have "read_node n m x \<noteq> None" if "x \<in> set (cell_children cell)" for x
  proof -
    from closed [OF cell that] have "x \<in> dom m" "length r < length x" by simp_all
    with Suc.prems(2) show ?thesis by (intro Suc.IH) simp_all
  qed
  with cell show ?case by (simp add: those_map)
qed

lemma reaches_trans: "reaches m a b \<Longrightarrow> reaches m b c \<Longrightarrow> reaches m a c"
  by (induction rule: reaches.induct) (auto intro: reaches_child)

lemma listed_reached:
  assumes d: "distinct (map item_path items)"
  shows "p \<in> set (map item_path items) \<Longrightarrow>
           \<exists>r \<in> set (snd (build_cells items)). reaches (fst (build_cells items)) r p"
proof (induction p rule: measure_induct_rule [where f = length])
  case (less p)
  let ?P = "map item_path items"
  let ?m = "fst (build_cells items)"
  show ?case
  proof (cases "is_root_path p \<or> parent_path p \<notin> set ?P")
    case True
    with less.prems have "p \<in> set (snd (build_cells items))"
      by (simp add: build_cells_eq(1) [OF d] roots_in_def)
    then show ?thesis by (auto intro: reaches_self)
  next
    case False
    then have nr: "\<not> is_root_path p" and par: "parent_path p \<in> set ?P" by simp_all
    from par obtain i where i: "i \<in> set items" "item_path i = parent_path p" by auto
    from build_cells_eq(2) [OF d i(1)] i(2)
    have cell: "?m (parent_path p) =
                  Some \<lparr>cell_path = parent_path p,
                        cell_kind = (if item_type i = ''tree'' then Folder else File),
                        cell_children = children_in ?P (parent_path p)\<rparr>"
      by simp
    from less.prems nr have "p \<in> set (children_in ?P (parent_path p))"
      by (simp add: children_in_def)
    with cell have step: "reaches ?m (parent_path p) p"
      by (auto intro: reaches_child reaches_self)
    from parent_shorter [OF nr] par less.IH [of "parent_path p"]
    obtain r where "r \<in> set (snd (build_cells items))" "reaches ?m r (parent_path p)"
      by blast
    with step show ?thesis by (blast intro: reaches_trans)
  qed
qed

lemma build_cells_keyed:
  assumes d: "distinct (map item_path items)"
    and c: "fst (build_cells items) q = Some c"
  shows "\<exists>i \<in> set items. item_path i = q
           \<and> c = \<lparr>cell_path = q,
                   cell_kind = (if item_type i = ''tree'' then Folder else File),
                   cell_children = children_in (map item_path items) q\<rparr>"
proof -
  from c build_cells_eq(3) [OF d, of q] have "q \<in> set (map item_path items)" by auto
  then obtain i where i: "i \<in> set items" "item_path i = q" by auto
  from build_cells_eq(2) [OF d i(1)] i c show ?thesis by auto
qed

lemma rebuild_flatten:
  assumes d: "distinct (map item_path items)"
  shows "\<exists>tree. buildFileTree lc items = Some tree
           \<and> set (flattenFiles tree) = listed_files items
           \<and> set (map node_path tree) =
               set (roots_in (set (map item_path items)) (map item_path items))"
proof -
  let ?P = "map item_path items"
  let ?m = "fst (build_cells items)"
  let ?roots = "snd (build_cells items)"
  let ?n = "depth_bound items"
  have keyed: "cell_path c = q" if "?m q = Some c" for q c
    using build_cells_keyed [OF d that] by auto
  have dom: "dom ?m = set ?P"
  proof
    show "dom ?m \<subseteq> set ?P"
    proof
      fix x assume "x \<in> dom ?m"
      then obtain y where "?m x = Some y" by auto
      with build_cells_eq(3) [OF d, of x] show "x \<in> set ?P" by (cases "x \<in> set ?P") auto
    qed
    show "set ?P \<subseteq> dom ?m" using build_cells_eq(2) [OF d] by auto
  qed
  have closed: "x \<in> dom ?m \<and> length q < length x"
    if "?m q = Some c" "x \<in> set (cell_children c)" for q c x
  proof -
    from build_cells_keyed [OF d that(1)] that(2)
    have x: "x \<in> set (children_in ?P q)" by auto
    then have "x \<in> set ?P" "\<not> is_root_path x" "parent_path x = q"
      by (simp_all add: children_in_def)
    with parent_shorter [of x] dom show ?thesis by auto
  qed
  have bound: "length q \<le> sum_list (map (\<lambda>i. length (item_path i)) items)" if "q \<in> dom ?m" for q
  proof -
    from that dom obtain i where "i \<in> set items" "item_path i = q" by auto
    then have "length q \<in> set (map (\<lambda>i. length (item_path i)) items)" by auto
    then show ?thesis by (simp add: member_le_sum_list)
  qed
  have roots_sub: "set ?roots \<subseteq> set ?P"
    by (auto simp add: build_cells_eq(1) [OF d] roots_in_def)
  have total: "read_node ?n ?m r \<noteq> None" if "r \<in> set ?roots" for r
  proof -
    from that roots_sub dom have "r \<in> dom ?m" by auto
    show ?thesis
    proof (rule read_node_total [where L = "sum_list (map (\<lambda>i. length (item_path i)) items)"])
      fix q c x
      assume "?m q = Some c" "x \<in> set (cell_children c)"
      then show "x \<in> dom ?m \<and> length q < length x" by (rule closed)
    next
      fix q assume "q \<in> dom ?m"
      then show "length q \<le> sum_list (map (\<lambda>i. length (item_path i)) items)" by (rule bound)
    next
      show "r \<in> dom ?m" by fact
    next
      show "sum_list (map (\<lambda>i. length (item_path i)) items) < ?n + length r"
        by (simp add: depth_bound_def)
    qed
  qed
  define ts where "ts = map (\<lambda>r. the (read_node ?n ?m r)) ?roots"
  from total have those: "those (map (read_node ?n ?m) ?roots) = Some ts"
    by (simp add: those_map ts_def)
  then have built: "buildFileTree lc items = Some (sortRecursively lc ts)"
    by (simp add: buildFileTree_def split_beta)
  have read: "\<exists>r \<in> set ?roots. read_node ?n ?m r = Some t" if "t \<in> set ts" for t
    using that total by (auto simp add: ts_def)
  have nodes: "set (all_nodes ts) =
                 {(item_path i, if item_type i = ''tree'' then Folder else File) | i. i \<in> set items}"
  proof (intro set_eqI iffI)
    fix e assume "e \<in> set (all_nodes ts)"
    then obtain t where t: "t \<in> set ts" "e \<in> set (node_entries t)"
      by (auto simp add: set_all_nodes)
    from read [OF t(1)] obtain r where r: "read_node ?n ?m r = Some t" by blast
    obtain q k where e: "e = (q, k)" by (cases e)
    from read_node_sound [OF keyed r, of q k] t(2) e
    obtain c where "?m q = Some c" "cell_kind c = k" by auto
    with build_cells_keyed [OF d, of q c] e
    show "e \<in> {(item_path i, if item_type i = ''tree'' then Folder else File) | i. i \<in> set items}"
      by auto
  next
    fix e
    assume "e \<in> {(item_path i, if item_type i = ''tree'' then Folder else File) | i. i \<in> set items}"
    then obtain i where i: "i \<in> set items"
      and e: "e = (item_path i, if item_type i = ''tree'' then Folder else File)"
      by auto
    from listed_reached [OF d, of "item_path i"] i
    obtain r where r: "r \<in> set ?roots" "reaches ?m r (item_path i)" by auto
    from total [OF r(1)] obtain t where t: "read_node ?n ?m r = Some t" by auto
    with r(1) have mem: "t \<in> set ts" by (force simp add: ts_def)
    from read_node_complete [OF keyed r(2) t build_cells_eq(2) [OF d i]] e
    have "e \<in> set (node_entries t)" by simp
    with mem show "e \<in> set (all_nodes ts)" by (auto simp add: set_all_nodes)
  qed
  have flat: "set (flattenFiles (sortRecursively lc ts)) = listed_files items"
    by (auto simp add: flatten_nodes(1) sort_keeps_nodes(1) nodes listed_files_def
        simp del: sortRecursively.simps)
  have root_path: "node_path (the (read_node ?n ?m r)) = r" if "r \<in> set ?roots" for r
  proof -
    from total [OF that] obtain t where t: "read_node ?n ?m r = Some t" by auto
    then obtain n' where "?n = Suc n'" by (cases ?n) auto
    with t keyed show ?thesis
      by (auto simp add: those_map split: option.splits if_splits)
  qed
  have "set (map node_path ts) = set ?roots"
    using root_path by (auto simp add: ts_def image_iff)
  then have rts: "set (map node_path (sortRecursively lc ts)) =
                    set (roots_in (set ?P) ?P)"
    using sort_keeps_roots [of lc ts]
    by (simp add: build_cells_eq(1) [OF d] del: sortRecursively.simps)
  from built flat rts show ?thesis by blast
qed

lemma listed_files_filter:
  "listed_files items = set (map item_path (filter (\<lambda>i. item_type i \<noteq> ''tree'') items))"
  by (auto simp add: listed_files_def)

lemma update_es:
  "updateRepositoryStatus E rid st prog lbl err tf xf s = Inr s' \<Longrightarrow>
     es_files s' = es_files s"
  "updateRepositoryStatus E rid st prog lbl err tf xf s = Inl (m, s'') \<Longrightarrow>
     es_files s'' = es_files s"
  by (auto simp add: updateRepositoryStatus_def Let_def split: option.splits if_splits)

lemma callback_es:
  "es_files (indexCallback E rid tot p c ft lang s) =
     es_files s @ (if es_file E p = None then [mk_fileData rid p c ft lang] else [])"
  by (auto simp add: indexCallback_def Let_def update_es indexFile_def
      split: option.splits sum.splits)

lemma loop_es:
  "es_files (indexFilesRecursively E rid tot files s) =
     es_files s @ map (file_document E rid) (filter (\<lambda>p. es_file E p = None) (indexed_paths files))"
  "es_files (index_one_file E rid tot f s) =
     es_files s @ map (file_document E rid) (filter (\<lambda>p. es_file E p = None) (indexed_path f))"
  by (induction E rid tot files s and E rid tot f s
        rule: indexFilesRecursively_index_one_file.induct)
     (simp_all add: callback_es file_document_def split: option.splits)

lemma run_es:
  assumes db: "\<And>n. db_update E n = None"
    and rd: "repo_data E = Inr (name, files)"
    and es: "es_repo E = None"
  shows "es_files (indexRepositoryAsync E rid s0) =
           es_files s0 @ map (file_document E rid) (index_successes E files)"
  by (simp add: indexRepositoryAsync_def index_try_def index_steps_def update_ok db rd es
        push_row_simps loop_count loop_es index_successes_def Let_def)

lemma placeholder_when_nothing:
  "fetch_gives_nothing h p \<Longrightarrow>
     content_or_placeholder h p =
       ''// File: '' @ p @ [CHR 0x0A] @ ''// Content unavailable (file may be too large or binary)''
   \<or> content_or_placeholder h p = ''// File: '' @ p @ [CHR 0x0A] @ ''// Content unavailable''"
  by (auto simp add: fetch_gives_nothing_def content_or_placeholder_def
      split: sum.splits option.splits)

lemma content_when_fetched:
  "\<not> fetch_gives_nothing h p \<Longrightarrow>
     \<exists>sz. fst (fetchRawFileContent h p None) = Inr (Some (content_or_placeholder h p, sz))"
  by (auto simp add: fetch_gives_nothing_def content_or_placeholder_def
      split: sum.splits option.splits)

lemma seven_paths_indexed:
  "index_successes (env_index_failing ten_file_tree h [''x.md'', ''y.md'', ''z.md'']) ten_file_tree
     = [''src/a.ts'', ''src/b.ts'', ''src/c.ts'', ''src/d.ts'', ''src/e.ts'', ''src/f.ts'',
        ''src/g.ts'']"
  by (simp add: index_successes_def ten_tree_paths ten_paths_def env_index_failing_def)

lemma placeholder_host_missing:
  "p \<in> set ms \<Longrightarrow>
     content_or_placeholder (host_missing ms) p =
       ''// File: '' @ p @ [CHR 0x0A] @ ''// Content unavailable (file may be too large or binary)''"
  by (simp add: content_or_placeholder_def fetch_host_missing)

section \<open>Results\<close>

text \<open>
  C1. Within one indexing run the progress of the rows written while the status is
  indexing should never decrease. On a repository with a single file, with every
  collaborator succeeding, the run writes 5, 20, 30, 40, then 90 for the one indexed
  file, and then 85 while the status is still indexing: the step after the file loop
  writes a constant below the loop's cap of 90.
\<close>

theorem progress_drops_after_file_indexing:
  "map progress (written (indexRepositoryAsync (env_ok one_file_tree (host_missing []))
                    ''r1'' empty_state))
     = [5, 20, 30, 40, 90, 85, 92, 100]
   \<and> map status (written (indexRepositoryAsync (env_ok one_file_tree (host_missing []))
                    ''r1'' empty_state))
     = [Indexing, Indexing, Indexing, Indexing, Indexing, Indexing, Indexing, Completed]"
  by (simp add: indexRepositoryAsync_def index_try_def index_steps_def update_ok env_ok_simps
        push_row_simps indexCallback_def one_file_tree_def empty_state_def Let_def)

text \<open>
  C2 (as amended). When the repository-level steps of a run succeed, the run ends with
  status completed and \<open>indexed_files\<close> equal to the number of files whose write to
  the search index succeeded, provided there is at least one, and with status failed
  when there is none. The outcome of the per-file content fetches plays no part in the
  count: the documents the run adds to the search index are, in order, one for every
  file whose index write succeeded, under the file's path and the repository id; the
  content of the document is the fetched text when the fetch gave one, and one of the
  two placeholder texts when the fetch threw, returned null or returned an empty text.
\<close>

theorem partial_failures_complete:
  assumes "\<forall>n. db_update E n = None"
    and "repo_data E = Inr (name, files)"
    and "es_repo E = None"
  shows "written (indexRepositoryAsync E rid s0) \<noteq> []
       \<and> last (written (indexRepositoryAsync E rid s0)) =
           final_row (countFilesRecursively files) (length (index_successes E files))
       \<and> getIndexingProgress (indexRepositoryAsync E rid s0) rid =
           Some (final_row (countFilesRecursively files) (length (index_successes E files)))
       \<and> (0 < length (index_successes E files) \<longrightarrow>
            status (last (written (indexRepositoryAsync E rid s0))) = Completed
          \<and> indexed_files (last (written (indexRepositoryAsync E rid s0))) =
              length (index_successes E files))
       \<and> (length (index_successes E files) = 0 \<longrightarrow>
            status (last (written (indexRepositoryAsync E rid s0))) = Failed)
       \<and> es_files (indexRepositoryAsync E rid s0) =
           es_files s0 @ map (file_document E rid) (index_successes E files)
       \<and> (\<forall>p. file_path (file_document E rid p) = p
              \<and> doc_repo_id (file_document E rid p) = rid
              \<and> (fetch_gives_nothing (github E) p \<longrightarrow>
                    file_content (file_document E rid p) =
                      ''// File: '' @ p @ [CHR 0x0A]
                      @ ''// Content unavailable (file may be too large or binary)''
                  \<or> file_content (file_document E rid p) =
                      ''// File: '' @ p @ [CHR 0x0A] @ ''// Content unavailable'')
              \<and> (\<not> fetch_gives_nothing (github E) p \<longrightarrow>
                    (\<exists>sz. fst (fetchRawFileContent (github E) p None) =
                            Inr (Some (file_content (file_document E rid p), sz)))))"
proof -
  have a: "written (indexRepositoryAsync E rid s0) \<noteq> []
       \<and> last (written (indexRepositoryAsync E rid s0)) =
           final_row (countFilesRecursively files) (length (index_successes E files))
       \<and> getIndexingProgress (indexRepositoryAsync E rid s0) rid =
           Some (final_row (countFilesRecursively files) (length (index_successes E files)))
       \<and> (0 < length (index_successes E files) \<longrightarrow>
            status (last (written (indexRepositoryAsync E rid s0))) = Completed
          \<and> indexed_files (last (written (indexRepositoryAsync E rid s0))) =
              length (index_successes E files))
       \<and> (length (index_successes E files) = 0 \<longrightarrow>
            status (last (written (indexRepositoryAsync E rid s0))) = Failed)"
    using run_final_row [of E name files rid s0] assms
    by (simp add: getIndexingProgress_def final_row_def)
  have b: "es_files (indexRepositoryAsync E rid s0) =
           es_files s0 @ map (file_document E rid) (index_successes E files)"
    using run_es [of E name files rid s0] assms by simp
  have c: "file_path (file_document E rid p) = p
              \<and> doc_repo_id (file_document E rid p) = rid
              \<and> (fetch_gives_nothing (github E) p \<longrightarrow>
                    file_content (file_document E rid p) =
                      ''// File: '' @ p @ [CHR 0x0A]
                      @ ''// Content unavailable (file may be too large or binary)''
                  \<or> file_content (file_document E rid p) =
                      ''// File: '' @ p @ [CHR 0x0A] @ ''// Content unavailable'')
              \<and> (\<not> fetch_gives_nothing (github E) p \<longrightarrow>
                    (\<exists>sz. fst (fetchRawFileContent (github E) p None) =
                            Inr (Some (file_content (file_document E rid p), sz))))" for p
    using placeholder_when_nothing [of "github E" p] content_when_fetched [of "github E" p]
    by (simp add: file_document_def mk_fileData_def)
  from a b c show ?thesis by blast
qed

theorem partial_failures_complete_witness:
  "(\<forall>n. db_update (env_index_failing ten_file_tree (host_missing [''src/a.ts''])
                     [''x.md'', ''y.md'', ''z.md'']) n = None)
   \<and> fetch_gives_nothing (host_missing [''src/a.ts'']) ''src/a.ts''
   \<and> status (last (written (indexRepositoryAsync
        (env_index_failing ten_file_tree (host_missing [''src/a.ts'']) [''x.md'', ''y.md'', ''z.md''])
        ''r1'' empty_state))) = Completed
   \<and> indexed_files (last (written (indexRepositoryAsync
        (env_index_failing ten_file_tree (host_missing [''src/a.ts'']) [''x.md'', ''y.md'', ''z.md''])
        ''r1'' empty_state))) = 7
   \<and> map file_path (es_files (indexRepositoryAsync
        (env_index_failing ten_file_tree (host_missing [''src/a.ts'']) [''x.md'', ''y.md'', ''z.md''])
        ''r1'' empty_state))
       = [''src/a.ts'', ''src/b.ts'', ''src/c.ts'', ''src/d.ts'', ''src/e.ts'', ''src/f.ts'',
          ''src/g.ts'']
   \<and> file_content (hd (es_files (indexRepositoryAsync
        (env_index_failing ten_file_tree (host_missing [''src/a.ts'']) [''x.md'', ''y.md'', ''z.md''])
        ''r1'' empty_state)))
       = ''// File: src/a.ts'' @ [CHR 0x0A]
         @ ''// Content unavailable (file may be too large or binary)''
   \<and> status (last (written (indexRepositoryAsync
        (env_index_failing ten_file_tree (host_missing [''src/a.ts'']) ten_paths)
        ''r1'' empty_state))) = Failed
   \<and> es_files (indexRepositoryAsync
        (env_index_failing ten_file_tree (host_missing [''src/a.ts'']) ten_paths)
        ''r1'' empty_state) = []"
proof -
  let ?h = "host_missing [''src/a.ts'']"
  let ?E = "env_index_failing ten_file_tree ?h [''x.md'', ''y.md'', ''z.md'']"
  let ?F = "env_index_failing ten_file_tree ?h ten_paths"
  have h1: "\<forall>n. db_update ?E n = None" "\<forall>n. db_update ?F n = None"
    by (simp_all add: env_index_failing_def env_ok_simps)
  have h2: "repo_data ?E = Inr (''repo'', ten_file_tree)" "repo_data ?F = Inr (''repo'', ten_file_tree)"
    by (simp_all add: env_index_failing_def env_ok_simps)
  have h3: "es_repo ?E = None" "es_repo ?F = None"
    by (simp_all add: env_index_failing_def env_ok_simps)
  have g: "github ?E = ?h"
    by (simp add: env_index_failing_def env_ok_simps)
  have f: "fetch_gives_nothing ?h ''src/a.ts''"
    by (simp add: nothing_host_missing)
  have n0: "index_successes ?F ten_file_tree = []"
    by (simp add: index_successes_def ten_tree_paths env_index_failing_def)
  have n7: "length (index_successes ?E ten_file_tree) = 7"
    by (rule seven_index_successes)
  have e0: "es_files empty_state = []"
    by (simp add: empty_state_def)
  note tE = partial_failures_complete [OF h1(1) h2(1) h3(1), of "''r1''" empty_state]
  note tF = partial_failures_complete [OF h1(2) h2(2) h3(2), of "''r1''" empty_state]
  from tE have c1: "status (last (written (indexRepositoryAsync ?E ''r1'' empty_state))) = Completed"
    and c2: "indexed_files (last (written (indexRepositoryAsync ?E ''r1'' empty_state))) = 7"
    unfolding n7 by (simp_all add: final_row_def)
  from tE have docs: "es_files (indexRepositoryAsync ?E ''r1'' empty_state) =
      map (file_document ?E ''r1'') (index_successes ?E ten_file_tree)"
    by (simp add: e0)
  from tE have fp: "\<And>p. file_path (file_document ?E ''r1'' p) = p" by blast
  have c3: "map file_path (es_files (indexRepositoryAsync ?E ''r1'' empty_state))
       = [''src/a.ts'', ''src/b.ts'', ''src/c.ts'', ''src/d.ts'', ''src/e.ts'', ''src/f.ts'',
          ''src/g.ts'']"
    unfolding docs seven_paths_indexed by (simp add: fp)
  have c4: "file_content (hd (es_files (indexRepositoryAsync ?E ''r1'' empty_state)))
       = ''// File: src/a.ts'' @ [CHR 0x0A]
         @ ''// Content unavailable (file may be too large or binary)''"
    unfolding docs seven_paths_indexed
    by (simp add: file_document_def mk_fileData_def g placeholder_host_missing)
  from tF have c5: "status (last (written (indexRepositoryAsync ?F ''r1'' empty_state))) = Failed"
    unfolding n0 by (simp add: final_row_def)
  from tF have c6: "es_files (indexRepositoryAsync ?F ''r1'' empty_state) = []"
    unfolding n0 by (simp add: e0)
  show ?thesis
    using h1(1) f c1 c2 c3 c4 c5 c6 by blast
qed

text \<open>
  C2 as stated fails: with ten files of which three content fetches fail (404), the run
  completes with \<open>indexed_files = 10\<close>, not 7; and when all ten content fetches fail
  the run still completes instead of failing.
\<close>

theorem fetch_failures_counterexample:
  "length (failed_fetches (host_missing [''x.md'', ''y.md'', ''z.md'']) ten_file_tree) = 3
   \<and> length (indexed_paths ten_file_tree) = 10
   \<and> status (last (written (indexRepositoryAsync
        (env_ok ten_file_tree (host_missing [''x.md'', ''y.md'', ''z.md''])) ''r1'' empty_state)))
       = Completed
   \<and> indexed_files (last (written (indexRepositoryAsync
        (env_ok ten_file_tree (host_missing [''x.md'', ''y.md'', ''z.md''])) ''r1'' empty_state)))
       = 10
   \<and> length (failed_fetches (host_missing ten_paths) ten_file_tree) = 10
   \<and> status (last (written (indexRepositoryAsync
        (env_ok ten_file_tree (host_missing ten_paths)) ''r1'' empty_state)))
       = Completed"
proof -
  have a: "length (failed_fetches (host_missing [''x.md'', ''y.md'', ''z.md'']) ten_file_tree) = 3"
    by (simp add: failed_fetches_def nothing_host_missing ten_tree_paths ten_paths_def)
  have b: "length (failed_fetches (host_missing ten_paths) ten_file_tree) = 10"
    by (simp add: failed_fetches_def nothing_host_missing ten_tree_paths) (simp add: ten_paths_def)
  have c: "length (index_successes (env_ok ten_file_tree h) ten_file_tree) = 10" for h
    by (simp add: index_successes_def env_ok_simps ten_tree_paths) (simp add: ten_paths_def)
  show ?thesis
    using run_final_row [of "env_ok ten_file_tree (host_missing [''x.md'', ''y.md'', ''z.md''])"
            "''repo''" ten_file_tree "''r1''" empty_state]
      run_final_row [of "env_ok ten_file_tree (host_missing ten_paths)"
            "''repo''" ten_file_tree "''r1''" empty_state]
      a b c
    by (simp add: env_ok_simps final_row_def ten_tree_paths) (simp add: ten_paths_def)
qed

text \<open>
  C6. Cache validity is the strict comparison \<open>now < indexed_at + ttl\<close> (the TTL in
  hours, instants in milliseconds): for a positive TTL the cache is valid exactly at the
  instants strictly before the expiry, hence invalid at the expiry instant itself. The
  handler reports a hit only for a valid record whose status is completed, and the table
  is touched (access count and access time) only in that case; otherwise it is returned
  unchanged.
\<close>

theorem cache_validity_strict:
  assumes "cache_ttl_hours r = Some ttl" and "0 < ttl"
    and "getRepositoryByUrl tbl url = Some r" and "url \<noteq> []"
  shows "(isCacheValid now r \<longleftrightarrow> now < indexed_at r + ttl * 3600000)
       \<and> \<not> isCacheValid (indexed_at r + ttl * 3600000) r
       \<and> (\<forall>t. t < indexed_at r + ttl * 3600000 \<longrightarrow> isCacheValid t r)
       \<and> fst (check_cache_POST True True now url tbl) =
           CacheStatus (isCacheValid now r \<and> repo_index_status r = Completed)
             (repo_index_status r = Indexing) (repo_index_status r = Completed)
             (indexed_at r + ttl * 3600000)
       \<and> snd (check_cache_POST True True now url tbl) =
           (if isCacheValid now r \<and> repo_index_status r = Completed
            then updateRepositoryAccess now (repo_id r) tbl else tbl)"
  using assms
  by (auto simp add: isCacheValid_def cacheExpiry_def ttlHours_def check_cache_POST_def
      Let_def mult.commute)

theorem cache_validity_strict_witness:
  "cache_ttl_hours example_repo = Some 24 \<and> (0::int) < 24
   \<and> getRepositoryByUrl [example_repo] ''https://github.com/o/r'' = Some example_repo
   \<and> isCacheValid 86400999 example_repo
   \<and> \<not> isCacheValid 86401000 example_repo
   \<and> fst (check_cache_POST True True 5000 ''https://github.com/o/r'' [example_repo]) =
       CacheStatus True False True 86401000
   \<and> access_count (hd (snd (check_cache_POST True True 5000 ''https://github.com/o/r''
        [example_repo]))) = 2
   \<and> snd (check_cache_POST True True 86401000 ''https://github.com/o/r'' [example_repo]) =
       [example_repo]"
proof -
  have h1: "cache_ttl_hours example_repo = Some 24"
    by (simp add: example_repo_def)
  have h2: "(0::int) < 24" by simp
  have h3: "getRepositoryByUrl [example_repo] ''https://github.com/o/r'' = Some example_repo"
    by (simp add: getRepositoryByUrl_def example_repo_def)
  have h4: "''https://github.com/o/r'' \<noteq> []" by simp
  have v: "indexed_at example_repo = 1000" "repo_index_status example_repo = Completed"
    "access_count example_repo = 1"
    by (simp_all add: example_repo_def)
  show ?thesis
    using cache_validity_strict [OF h1 h2 h3 h4, of 5000]
      cache_validity_strict [OF h1 h2 h3 h4, of 86401000]
      cache_validity_strict [OF h1 h2 h3 h4, of 86400999] h1 h3
    by (simp add: v updateRepositoryAccess_def)
qed

text \<open>
  C4 (as amended). \<open>withRetry\<close> makes between one and four calls: the first attempt and
  up to three retries. Before the \<open>k\<close>-th retry it waits \<open>400 * 2^(k-1)\<close> ms, so the
  delays are 400, 800, 1600. Every failure that was retried had a status other than 404,
  and the loop stops early only on success or on a 404. When the first content request
  answers 404, \<open>fetchRawFileContent\<close> makes exactly that one content request and
  returns null.
\<close>

theorem retry_policy:
  "(case withRetry fn of (res, calls, delays) \<Rightarrow>
       1 \<le> calls \<and> calls \<le> 4
     \<and> delays = map (\<lambda>k. 400 * 2 ^ k) [0..<calls - 1]
     \<and> res = fn (calls - 1)
     \<and> (\<forall>k<calls - 1. \<exists>st. fn k = Err st \<and> st \<noteq> Some 404)
     \<and> (calls < 4 \<longrightarrow> (\<exists>v. res = Ok v) \<or> res = Err (Some 404)))
   \<and> (get_repo h 0 = Ok b \<and> get_content h path (resolve_branch ref b) 0 = Err (Some 404)
        \<longrightarrow> fetchRawFileContent h path ref = (Inr None, 1))"
proof -
  obtain res calls delays where w: "withRetry fn = (res, calls, delays)"
    by (cases "withRetry fn") auto
  then have loop: "withRetry_loop fn 3 400 0 [] = (res, calls, delays)"
    by (simp add: withRetry_def)
  have A: "1 \<le> calls \<and> calls \<le> 4
     \<and> delays = map (\<lambda>k. 400 * 2 ^ k) [0..<calls - 1]
     \<and> res = fn (calls - 1)
     \<and> (\<forall>k<calls - 1. \<exists>st. fn k = Err st \<and> st \<noteq> Some 404)
     \<and> (calls < 4 \<longrightarrow> (\<exists>v. res = Ok v) \<or> res = Err (Some 404))"
    using withRetry_loop_spec [OF loop] by auto
  have B: "get_repo h 0 = Ok b \<and> get_content h path (resolve_branch ref b) 0 = Err (Some 404)
        \<longrightarrow> fetchRawFileContent h path ref = (Inr None, 1)"
    by (simp add: fetchRawFileContent_def withRetry_def fetch_catch_def)
  show ?thesis
    unfolding w prod.case using A B by blast
qed

theorem retry_policy_witness:
  "withRetry flaky_request = (Ok ''main'', 3, [400, 800])
   \<and> get_repo (host_missing [''gone.ts'']) 0 = Ok ''main''
   \<and> get_content (host_missing [''gone.ts'']) ''gone.ts'' (resolve_branch None ''main'') 0
        = Err (Some 404)
   \<and> fetchRawFileContent (host_missing [''gone.ts'']) ''gone.ts'' None = (Inr None, 1)"
proof -
  have h: "get_repo (host_missing [''gone.ts'']) 0 = Ok ''main''
     \<and> get_content (host_missing [''gone.ts'']) ''gone.ts'' (resolve_branch None ''main'') 0
        = Err (Some 404)"
    by (simp add: host_missing_def)
  have w: "withRetry flaky_request = (Ok ''main'', 3, [400, 800])"
    by (simp add: withRetry_def flaky_request_def)
  show ?thesis
    using retry_policy [of flaky_request "host_missing [''gone.ts'']" "''main''" "''gone.ts''" None]
      h w
    by simp
qed

text \<open>
  C4 as stated fails in its bound of three attempts in total: against a host whose
  content requests always fail with status 500, \<open>fetchRawFileContent\<close> makes four
  content requests before it gives up.
\<close>

theorem three_attempts_counterexample:
  "fetchRawFileContent host_always_500 ''README.md'' None = (Inl (Some 500), 4)
   \<and> \<not> (4::nat) \<le> 3"
  by (simp add: fetchRawFileContent_def withRetry_def host_always_500_def fetch_catch_def)

text \<open>
  C5. When the content request succeeds and its answer is a directory listing, an entry
  whose type is not \<open>file\<close>, or an entry whose reported size exceeds 256 KiB,
  \<open>fetchRawFileContent\<close> returns null: not an error, and no content.
\<close>

theorem rejects_return_null:
  assumes "withRetry (get_repo h) = (Ok b, c1, d1)"
    and "withRetry (get_content h path (resolve_branch ref b)) = (Ok d, c2, d2)"
    and "d = DirListing
         \<or> (\<exists>e. d = Entry e \<and> (entry_type e \<noteq> ''file''
                                 \<or> (\<exists>n. entry_size e = Some n \<and> 256 * 1024 < n)))"
  shows "fst (fetchRawFileContent h path ref) = Inr None"
  using assms
  by (auto simp add: fetchRawFileContent_def content_of_data_def Let_def)

theorem rejects_return_null_witness:
  "withRetry (get_repo host_300KiB) = (Ok ''main'', 1, [])
   \<and> withRetry (get_content host_300KiB ''big.bin'' (resolve_branch None ''main'')) =
       (Ok (Entry \<lparr>entry_type = ''file'', entry_size = Some (300 * 1024),
                     entry_encoding = Some ''base64'', entry_content = Some ''AAAA''\<rparr>), 1, [])
   \<and> (256::nat) * 1024 < 300 * 1024
   \<and> fst (fetchRawFileContent host_300KiB ''big.bin'' None) = Inr None"
proof -
  let ?e = "\<lparr>entry_type = ''file'', entry_size = Some (300 * 1024),
                     entry_encoding = Some ''base64'', entry_content = Some ''AAAA''\<rparr>"
  have h1: "withRetry (get_repo host_300KiB) = (Ok ''main'', 1, [])"
    by (simp add: withRetry_def host_300KiB_def)
  have h2: "withRetry (get_content host_300KiB ''big.bin'' (resolve_branch None ''main'')) =
       (Ok (Entry ?e), 1, [])"
    by (simp add: withRetry_def host_300KiB_def)
  have h3: "Entry ?e = DirListing
         \<or> (\<exists>e. Entry ?e = Entry e \<and> (entry_type e \<noteq> ''file''
                                 \<or> (\<exists>n. entry_size e = Some n \<and> 256 * 1024 < n)))"
    by simp
  show ?thesis
    using rejects_return_null [OF h1 h2 h3] h1 h2 by simp
qed

text \<open>
  C7. A request for a repository whose progress row says indexing with a progress above 5
  is answered with that status and progress, and a request for a repository whose row
  says completed is answered as already indexed; in both cases the state is returned as
  it was, so no run took place: a run always leaves a different state, since its first
  step calls \<open>updateRepositoryStatus\<close>.
\<close>

theorem request_guard:
  assumes "repoId \<noteq> []" and "repoUrl \<noteq> []"
    and "getIndexingProgress s repoId = Some cp"
  shows "(status cp = Indexing \<and> 5 < progress cp \<longrightarrow>
            background_index_POST E True repoId repoUrl s = (AlreadyInProgress (progress cp), s))
       \<and> (status cp = Completed \<longrightarrow>
            background_index_POST E True repoId repoUrl s = (AlreadyIndexed, s))
       \<and> indexRepositoryAsync E repoId s \<noteq> s"
proof -
  have "db_calls (indexRepositoryAsync E repoId s) \<noteq> db_calls s"
    using run_calls [of s E repoId] by simp
  then have "indexRepositoryAsync E repoId s \<noteq> s" by auto
  with assms show ?thesis
    by (simp add: background_index_POST_def)
qed

theorem request_guard_witness:
  "getIndexingProgress half_way_state ''r1'' = Some half_way_row
   \<and> status half_way_row = Indexing \<and> progress half_way_row = 50
   \<and> background_index_POST (env_ok ten_file_tree (host_missing [])) True ''r1''
        ''https://github.com/o/r'' half_way_state = (AlreadyInProgress 50, half_way_state)"
proof -
  have h1: "''r1'' \<noteq> []" and h2: "''https://github.com/o/r'' \<noteq> []" by simp_all
  have h3: "getIndexingProgress half_way_state ''r1'' = Some half_way_row"
    by (simp add: getIndexingProgress_def half_way_state_def)
  have v: "status half_way_row = Indexing" "progress half_way_row = 50"
    by (simp_all add: half_way_row_def)
  show ?thesis
    using request_guard [OF h1 h2 h3, of "env_ok ten_file_tree (host_missing [])"] h3 v
    by simp
qed

text \<open>
  C8. Two distinct paths of one repository are indexed under distinct identities (the
  repository id and the path), and writing a record under one path leaves the records
  found under any other path as they were: the write adds a document and replaces none.
  This holds although the \<open>id\<close> field of the document, built from the path with every
  non-alphanumeric character replaced, can coincide for two paths; the witness is such
  a pair.
\<close>

theorem distinct_paths_distinct_records:
  assumes "p \<noteq> q"
  shows "file_identity (mk_fileData r p c t l) \<noteq> file_identity (mk_fileData r q c' t' l')
       \<and> (\<forall>d. file_path d = q \<longrightarrow>
             file_hits r p (indexFile d idx) = file_hits r p idx
           \<and> getFileContent r p (indexFile d idx) = getFileContent r p idx)
       \<and> file_hits r p (indexFile (mk_fileData r q c' t' l') (indexFile (mk_fileData r p c t l) idx))
           = file_hits r p idx @ [mk_fileData r p c t l]"
  using assms
  by (auto simp add: file_identity_def mk_fileData_def file_hits_def getFileContent_def
      indexFile_def)

theorem distinct_paths_distinct_records_witness:
  "''src/a-b.ts'' \<noteq> ''src/a_b.ts''
   \<and> doc_id (mk_fileData ''r1'' ''src/a-b.ts'' ''one'' ''file'' None) =
       doc_id (mk_fileData ''r1'' ''src/a_b.ts'' ''two'' ''file'' None)
   \<and> file_identity (mk_fileData ''r1'' ''src/a-b.ts'' ''one'' ''file'' None) \<noteq>
       file_identity (mk_fileData ''r1'' ''src/a_b.ts'' ''two'' ''file'' None)
   \<and> file_hits ''r1'' ''src/a-b.ts''
        (indexFile (mk_fileData ''r1'' ''src/a_b.ts'' ''two'' ''file'' None)
          (indexFile (mk_fileData ''r1'' ''src/a-b.ts'' ''one'' ''file'' None) []))
       = [mk_fileData ''r1'' ''src/a-b.ts'' ''one'' ''file'' None]"
proof -
  have h: "''src/a-b.ts'' \<noteq> ''src/a_b.ts''" by simp
  have i: "doc_id (mk_fileData ''r1'' ''src/a-b.ts'' ''one'' ''file'' None) =
       doc_id (mk_fileData ''r1'' ''src/a_b.ts'' ''two'' ''file'' None)"
    by (simp add: mk_fileData_def sanitize_path_def is_alnum_def lower_letters_def
        upper_letters_def digit_chars_def)
  have e: "file_hits ''r1'' ''src/a-b.ts'' [] = []"
    by (simp add: file_hits_def)
  show ?thesis
    using distinct_paths_distinct_records [OF h, of "''r1''" "''one''" "''file''" None
        "''two''" "''file''" None "[]"] h i e
    by simp
qed

text \<open>
  C3. In every state the limiter of \<open>githubConcurrencyLimit\<close> reaches from its initial
  state, through any sequence of submissions and settlements, at most 5 tasks are
  running; the tasks started so far followed by the queue are the tasks submitted so
  far, in order (admission is first in, first out); while tasks wait, all 5 slots are
  taken; the settlement of any running task, fulfilled or rejected alike, starts the head
  of the queue; and the task at position \<open>k\<close> of the queue has been started once more
  than \<open>k\<close> settlements have happened, whatever else is submitted meanwhile. Tasks are
  functions that return a promise, as the \<open>async\<close> fetcher does.
\<close>

theorem limiter_bounded_fifo_live:
  assumes "run_events githubConcurrencyLimit es new_limiter = Some s"
  shows "activeCount s \<le> 5 \<and> length (running s) \<le> 5
       \<and> activeCount s = int (length (running s))
       \<and> submitted s = started s @ queue s
       \<and> (queue s \<noteq> [] \<longrightarrow> length (running s) = 5)
       \<and> (\<forall>t oc. t \<in> set (running s) \<and> queue s \<noteq> [] \<longrightarrow>
             (\<exists>s'. limiter_step githubConcurrencyLimit (Settle t oc) s = Some s'
                  \<and> started s' = started s @ [hd (queue s)]
                  \<and> queue s' = tl (queue s)
                  \<and> length (running s') \<le> 5))
       \<and> (\<forall>es' s' k. run_events githubConcurrencyLimit es' s = Some s'
                      \<and> k < length (queue s) \<and> k < settles es'
             \<longrightarrow> queue s ! k \<in> set (started s'))"
proof -
  have inv0: "limiter_inv githubConcurrencyLimit (new_limiter :: 'a limiter)"
    by (rule inv_new) (simp add: githubConcurrencyLimit_def)
  from inv_run [OF inv0 assms] have inv: "limiter_inv githubConcurrencyLimit s" .
  have c: "0 < githubConcurrencyLimit" by (simp add: githubConcurrencyLimit_def)
  from inv have basic: "activeCount s \<le> 5 \<and> length (running s) \<le> 5
       \<and> activeCount s = int (length (running s))
       \<and> submitted s = started s @ queue s
       \<and> (queue s \<noteq> [] \<longrightarrow> length (running s) = 5)"
    by (auto simp add: limiter_inv_def githubConcurrencyLimit_def)
  have adm: "\<exists>s'. limiter_step githubConcurrencyLimit (Settle t oc) s = Some s'
                  \<and> started s' = started s @ [hd (queue s)]
                  \<and> queue s' = tl (queue s)
                  \<and> length (running s') \<le> 5"
    if "t \<in> set (running s) \<and> queue s \<noteq> []" for t oc
  proof -
    from that obtain x rest where q: "queue s = x # rest" by (cases "queue s") auto
    from that have t: "t \<in> set (running s)" by simp
    from inv_settle [OF inv t, of oc]
    have "length (running (settle githubConcurrencyLimit t oc s)) \<le> 5"
      by (auto simp add: limiter_inv_def githubConcurrencyLimit_def)
    with settle_admits [OF inv t q, of oc] t q show ?thesis by simp
  qed
  have live: "queue s ! k \<in> set (started s')"
    if "run_events githubConcurrencyLimit es' s = Some s' \<and> k < length (queue s) \<and> k < settles es'"
    for es' s' k
  proof -
    from that have r: "run_events githubConcurrencyLimit es' s = Some s'"
      and k: "k < length (queue s)" and m: "k < settles es'" by simp_all
    from queued_task_runs [OF inv c r k m] show ?thesis
      by (metis nth_mem)
  qed
  from basic adm live show ?thesis by blast
qed

theorem limiter_bounded_fifo_live_witness:
  "run_events githubConcurrencyLimit seven_submits new_limiter = Some after_seven
   \<and> length (running after_seven) = 5
   \<and> queue after_seven = [5, 6]
   \<and> (0::nat) \<in> set (running after_seven)
   \<and> started (the (limiter_step githubConcurrencyLimit (Settle 0 Rejected) after_seven)) = [0, 1, 2, 3, 4, 5]
   \<and> run_events githubConcurrencyLimit two_settles after_seven = Some after_two_settles
   \<and> (1::nat) < settles two_settles
   \<and> queue after_seven ! 1 = 6
   \<and> (6::nat) \<in> set (started after_two_settles)"
proof -
  have h: "run_events githubConcurrencyLimit seven_submits new_limiter = Some after_seven"
    by (simp add: seven_submits_def new_limiter_def after_seven_def limit_def next_task_def
        githubConcurrencyLimit_def)
  have r: "run_events githubConcurrencyLimit two_settles after_seven = Some after_two_settles"
    by (simp add: two_settles_def after_seven_def after_two_settles_def settle_def
        next_task_def githubConcurrencyLimit_def)
  have q: "queue after_seven = [5, 6]" "(0::nat) \<in> set (running after_seven)"
    "started after_seven = [0, 1, 2, 3, 4]"
    by (simp_all add: after_seven_def)
  have m: "(1::nat) < settles two_settles"
    by (simp add: settles_def two_settles_def)
  note t = limiter_bounded_fifo_live [OF h]
  from t q have len: "length (running after_seven) = 5" by simp
  from t q have "\<exists>s'. limiter_step githubConcurrencyLimit (Settle 0 Rejected) after_seven = Some s'
                  \<and> started s' = started after_seven @ [hd (queue after_seven)]"
    by (metis list.distinct(1))
  then have st: "started (the (limiter_step githubConcurrencyLimit (Settle 0 Rejected) after_seven))
                  = [0, 1, 2, 3, 4, 5]"
    using q by auto
  from t r m q have "queue after_seven ! 1 \<in> set (started after_two_settles)"
    by (metis One_nat_def length_Cons lessI list.size(3))
  with q have six: "(6::nat) \<in> set (started after_two_settles)" by simp
  from h len q st r m six show ?thesis by simp
qed

text \<open>
  C9 (as amended). When the question contains a file name \<open>m\<close> with a recognized
  extension, a candidate scores 3 when its path equals \<open>m\<close>, 2 when its path ends with
  the last path segment of \<open>m\<close>, 1 when its path merely contains that segment, letter
  case ignored throughout; the path that becomes the primary context has the highest
  positive score among the candidates and, among those with that score, a shortest
  path; and there is none exactly when no candidate scores. For the question
  \<open>what does utils.ts do\<close> over candidates drawn from README.md, src/index.ts and
  src/utils.ts, the last among them, the primary context is src/utils.ts with score 2.
\<close>

theorem filename_mention_primary_context:
  "(filename_match question = Some m \<longrightarrow>
      (\<forall>d. (local_score m d = 3 \<longleftrightarrow> toLowerCase (file_path d) = toLowerCase m)
          \<and> (local_score m d = 2 \<longleftrightarrow>
               toLowerCase (file_path d) \<noteq> toLowerCase m
               \<and> (\<exists>pre. toLowerCase (file_path d) = pre @ mention_base m))
          \<and> (local_score m d = 1 \<longleftrightarrow>
               toLowerCase (file_path d) \<noteq> toLowerCase m
               \<and> \<not> (\<exists>pre. toLowerCase (file_path d) = pre @ mention_base m)
               \<and> (\<exists>pre post. toLowerCase (file_path d) = pre @ mention_base m @ post))
          \<and> 0 \<le> local_score m d \<and> local_score m d \<le> 3)
    \<and> (\<forall>p sc. detect_primary search question = Some (p, sc) \<longrightarrow>
          (\<exists>b \<in> set (search (mention_base m)). file_path b = p \<and> p \<noteq> []
              \<and> sc = local_score m b \<and> 0 < sc
              \<and> (\<forall>d \<in> set (search (mention_base m)). file_path d \<noteq> [] \<longrightarrow>
                    local_score m d \<le> sc
                  \<and> (local_score m d = sc \<longrightarrow> length p \<le> length (file_path d)))))
    \<and> (detect_primary search question = None \<longleftrightarrow>
          (\<forall>d \<in> set (search (mention_base m)). file_path d \<noteq> [] \<longrightarrow> local_score m d \<le> 0)))
   \<and> (set (map file_path (search ''utils.ts''))
          \<subseteq> {''README.md'', ''src/index.ts'', ''src/utils.ts''}
       \<and> ''src/utils.ts'' \<in> set (map file_path (search ''utils.ts''))
       \<longrightarrow> detect_primary search ''what does utils.ts do'' = Some (''src/utils.ts'', 2))"
  using local_score_cases [of m] detect_primary_Some [of question m search]
    detect_primary_None [of question m search] scenario_primary [of search]
  by blast

theorem filename_mention_primary_context_witness:
  "filename_match ''what does utils.ts do'' = Some ''utils.ts''
   \<and> set (map file_path (three_file_search ''utils.ts''))
        \<subseteq> {''README.md'', ''src/index.ts'', ''src/utils.ts''}
   \<and> ''src/utils.ts'' \<in> set (map file_path (three_file_search ''utils.ts''))
   \<and> detect_primary three_file_search ''what does utils.ts do'' = Some (''src/utils.ts'', 2)
   \<and> local_score ''utils.ts'' (doc_at ''src/utils.ts'') = 2
   \<and> local_score ''utils.ts'' (doc_at ''README.md'') \<le> 2"
proof -
  have h1: "filename_match ''what does utils.ts do'' = Some ''utils.ts''"
    by (rule match_utils)
  have h2: "set (map file_path (three_file_search ''utils.ts''))
        \<subseteq> {''README.md'', ''src/index.ts'', ''src/utils.ts''}"
    and h3: "''src/utils.ts'' \<in> set (map file_path (three_file_search ''utils.ts''))"
    by (simp_all add: three_file_search_def doc_at_def)
  note t = filename_mention_primary_context
             [of "''what does utils.ts do''" "''utils.ts''" three_file_search]
  from t h2 h3 have c: "detect_primary three_file_search ''what does utils.ts do''
                          = Some (''src/utils.ts'', 2)"
    by blast
  from t h1 c have "\<exists>b \<in> set (three_file_search (mention_base ''utils.ts'')).
        file_path b = ''src/utils.ts'' \<and> 2 = local_score ''utils.ts'' b
      \<and> (\<forall>d \<in> set (three_file_search (mention_base ''utils.ts'')). file_path d \<noteq> [] \<longrightarrow>
                    local_score ''utils.ts'' d \<le> 2)"
    by blast
  then have s: "local_score ''utils.ts'' (doc_at ''src/utils.ts'') = 2
     \<and> local_score ''utils.ts'' (doc_at ''README.md'') \<le> 2"
    by (auto simp add: three_file_search_def doc_at_def)
  from h1 h2 h3 c s show ?thesis by blast
qed

text \<open>
  C9 as stated fails where the mentioned name has a directory part: for the question
  \<open>what does src/utils.ts do\<close> the candidate lib/utils.ts neither ends with nor
  contains the mentioned name, yet it scores 2 and becomes the primary context.
\<close>

theorem mentioned_directory_counterexample:
  "filename_match ''what does src/utils.ts do'' = Some ''src/utils.ts''
   \<and> \<not> endsWith (toLowerCase ''lib/utils.ts'') (toLowerCase ''src/utils.ts'')
   \<and> \<not> includes_str (toLowerCase ''lib/utils.ts'') (toLowerCase ''src/utils.ts'')
   \<and> local_score ''src/utils.ts'' (doc_at ''lib/utils.ts'') = 2
   \<and> detect_primary lib_only_search ''what does src/utils.ts do'' = Some (''lib/utils.ts'', 2)"
proof -
  have a: "\<not> endsWith (toLowerCase ''lib/utils.ts'') (toLowerCase ''src/utils.ts'')"
    by (simp add: endsWith_def lower_defs)
  have b: "\<not> includes_str (toLowerCase ''lib/utils.ts'') (toLowerCase ''src/utils.ts'')"
    by (simp add: lower_defs)
  have c: "detect_primary lib_only_search ''what does src/utils.ts do'' = Some (''lib/utils.ts'', 2)"
    by (simp add: detect_primary_def match_src_utils base_utils scored_matches_def
        lib_only_search_def lib_score sort_by_def del: filename_match.simps)
       (simp add: doc_at_def)
  from match_src_utils a b lib_score c show ?thesis by blast
qed

text \<open>
  C10. For every listing whose paths are pairwise distinct, \<open>buildFileTree\<close> yields a
  finite tree, and flattening that tree gives exactly the paths of the listing's file
  entries (every entry that is not a \<open>tree\<close>), whatever the collation used for sorting.
  An orphan, that is an entry below the top level whose parent path is not listed, is a
  root of the rebuilt tree, and when it is a file it is among the flattened paths.
\<close>

theorem rebuild_is_left_inverse_of_flatten:
  assumes "distinct (map item_path treeItems)"
  shows "\<exists>tree. buildFileTree localeCompare treeItems = Some tree
           \<and> set (flattenFiles tree) = listed_files treeItems
           \<and> (\<forall>i \<in> set treeItems. is_orphan treeItems i \<longrightarrow>
                  item_path i \<in> set (map node_path tree)
                \<and> (item_type i \<noteq> ''tree'' \<longrightarrow> item_path i \<in> set (flattenFiles tree)))"
proof -
  from rebuild_flatten [OF assms, of localeCompare] obtain tree where
    t: "buildFileTree localeCompare treeItems = Some tree"
       "set (flattenFiles tree) = listed_files treeItems"
       "set (map node_path tree) =
          set (roots_in (set (map item_path treeItems)) (map item_path treeItems))"
    by blast
  have "item_path i \<in> set (map node_path tree)
        \<and> (item_type i \<noteq> ''tree'' \<longrightarrow> item_path i \<in> set (flattenFiles tree))"
    if "i \<in> set treeItems" "is_orphan treeItems i" for i
    using that t(2,3) by (auto simp add: is_orphan_def roots_in_def listed_files_def)
  with t(1,2) show ?thesis by blast
qed

theorem rebuild_is_left_inverse_of_flatten_witness:
  "distinct (map item_path orphan_listing)
   \<and> is_orphan orphan_listing \<lparr>item_path = ''docs/guide.md'', item_type = ''blob''\<rparr>
   \<and> set (flattenFiles (the (buildFileTree by_length orphan_listing))) =
        {''src/a.ts'', ''docs/guide.md'', ''README.md''}
   \<and> ''docs/guide.md'' \<in> set (map node_path (the (buildFileTree by_length orphan_listing)))"
proof -
  have h: "distinct (map item_path orphan_listing)"
    by (simp add: orphan_listing_def)
  have o: "is_orphan orphan_listing \<lparr>item_path = ''docs/guide.md'', item_type = ''blob''\<rparr>"
    by (simp add: is_orphan_def is_root_path_def parent_path_def orphan_listing_def)
  have m: "\<lparr>item_path = ''docs/guide.md'', item_type = ''blob''\<rparr> \<in> set orphan_listing"
    by (simp add: orphan_listing_def)
  have l: "listed_files orphan_listing = {''src/a.ts'', ''docs/guide.md'', ''README.md''}"
    by (simp add: listed_files_filter orphan_listing_def)
  from rebuild_is_left_inverse_of_flatten [OF h, of by_length] obtain tree where
    t: "buildFileTree by_length orphan_listing = Some tree"
       "set (flattenFiles tree) = listed_files orphan_listing"
       "\<forall>i \<in> set orphan_listing. is_orphan orphan_listing i \<longrightarrow>
            item_path i \<in> set (map node_path tree)"
    by blast
  from t(3) m o have "''docs/guide.md'' \<in> set (map node_path tree)" by force
  with t(1,2) l h o show ?thesis by simp
qed

end
